theory Spec2Isabelle
  imports Complex_Main "HOL-Library.Word" "HOL-Library.Monad_Syntax"
begin

section \<open>Tensors\<close>

text \<open>
  The notebook \<^verbatim>\<open>neural-style-transfer.ipynb\<close> computes on dense arrays. An array is
  its shape together with its elements in row-major order, as the libraries store it.
  A library call that raises is \<open>None\<close>.

  The arrays of the notebook hold 32-bit floating-point numbers. Two readings of the
  arithmetic are given. In the first the elements are real numbers and the arithmetic is
  exact (\<open>tensor\<close>): it serves the statements that are about formulas, shapes and the
  course of the loop. In the second the elements are floating-point values with rounding,
  underflow, overflow, infinities and NaN (\<open>tensor32\<close>, further down): it serves the
  statements about the sign and the vanishing of the losses, which exact arithmetic cannot
  decide.
\<close>

record 'a ndarray =
  shape :: "nat list"
  elems :: "'a list"

type_synonym tensor = "real ndarray"

definition well_shaped :: "'a ndarray \<Rightarrow> bool" where
  "well_shaped t \<longleftrightarrow> length (elems t) = prod_list (shape t)"

text \<open>Row-major enumeration of the values of an index function.\<close>

definition grid2 :: "nat \<Rightarrow> nat \<Rightarrow> (nat \<Rightarrow> nat \<Rightarrow> 'a) \<Rightarrow> 'a list" where
  "grid2 n m f = concat (map (\<lambda>i. map (f i) [0..<m]) [0..<n])"

definition grid3 :: "nat \<Rightarrow> nat \<Rightarrow> nat \<Rightarrow> (nat \<Rightarrow> nat \<Rightarrow> nat \<Rightarrow> 'a) \<Rightarrow> 'a list" where
  "grid3 n m p f = concat (map (\<lambda>i. grid2 m p (f i)) [0..<n])"

definition grid4 ::
  "nat \<Rightarrow> nat \<Rightarrow> nat \<Rightarrow> nat \<Rightarrow> (nat \<Rightarrow> nat \<Rightarrow> nat \<Rightarrow> nat \<Rightarrow> 'a) \<Rightarrow> 'a list" where
  "grid4 n m p q f = concat (map (\<lambda>i. grid3 m p q (f i)) [0..<n])"

text \<open>
  Element \<open>[i, j]\<close> of a rank-2 tensor, \<open>[h, w, c]\<close> of a rank-3 tensor and
  \<open>[n, h, w, c]\<close> of a rank-4 tensor.
\<close>

definition at2 :: "'a ndarray \<Rightarrow> nat \<Rightarrow> nat \<Rightarrow> 'a" where
  "at2 x i j = elems x ! (i * (shape x ! 1) + j)"

definition at3 :: "'a ndarray \<Rightarrow> nat \<Rightarrow> nat \<Rightarrow> nat \<Rightarrow> 'a" where
  "at3 x h w c = elems x ! ((h * (shape x ! 1) + w) * (shape x ! 2) + c)"

definition at4 :: "'a ndarray \<Rightarrow> nat \<Rightarrow> nat \<Rightarrow> nat \<Rightarrow> nat \<Rightarrow> 'a" where
  "at4 x n h w c =
     elems x ! (((n * (shape x ! 1) + h) * (shape x ! 2) + w) * (shape x ! 3) + c)"

text \<open>
  Broadcasting of two shapes, aligned at their last dimensions: two dimensions go together
  when they are equal or one of them is 1; otherwise the library raises.
\<close>

fun broadcast_dims :: "nat list \<Rightarrow> nat list \<Rightarrow> nat list option" where
  "broadcast_dims [] ys = Some ys"
| "broadcast_dims xs [] = Some xs"
| "broadcast_dims (x # xs) (y # ys) =
     (if x = y \<or> y = 1 then map_option ((#) x) (broadcast_dims xs ys)
      else if x = 1 then map_option ((#) y) (broadcast_dims xs ys)
      else None)"

definition broadcast_shape :: "nat list \<Rightarrow> nat list \<Rightarrow> nat list option" where
  "broadcast_shape s t = map_option rev (broadcast_dims (rev s) (rev t))"

text \<open>The elements of an array of shape \<open>ds\<close> repeated along its dimensions of size 1
  to fill the shape \<open>rs\<close>.\<close>

fun expand :: "nat list \<Rightarrow> nat list \<Rightarrow> 'a list \<Rightarrow> 'a list" where
  "expand (d # ds) (r # rs) xs =
     (if d = r
      then concat (map (\<lambda>i. expand ds rs (take (prod_list ds) (drop (i * prod_list ds) xs))) [0..<r])
      else concat (replicate r (expand ds rs xs)))"
| "expand ds rs xs = xs"

definition broadcast_to :: "'a ndarray \<Rightarrow> nat list \<Rightarrow> 'a list" where
  "broadcast_to a r = expand (replicate (length r - length (shape a)) 1 @ shape a) r (elems a)"

text \<open>
  An elementwise operation on two arrays: on arrays of one shape element by element, on
  arrays of different shapes after broadcasting both to their common shape.
\<close>

definition elementwise ::
  "('a \<Rightarrow> 'a \<Rightarrow> 'a) \<Rightarrow> 'a ndarray \<Rightarrow> 'a ndarray \<Rightarrow> 'a ndarray option" where
  "elementwise f a b =
     (if shape a = shape b
      then Some \<lparr>shape = shape a, elems = map2 f (elems a) (elems b)\<rparr>
      else case broadcast_shape (shape a) (shape b) of
             None \<Rightarrow> None
           | Some r \<Rightarrow> Some \<lparr>shape = r, elems = map2 f (broadcast_to a r) (broadcast_to b r)\<rparr>)"

text \<open>Elementwise \<^verbatim>\<open>a - b\<close> and \<^verbatim>\<open>a + b\<close>.\<close>

definition tf_subtract :: "tensor \<Rightarrow> tensor \<Rightarrow> tensor option" where
  "tf_subtract a b = elementwise (\<lambda>u v. u - v) a b"

definition tf_add :: "tensor \<Rightarrow> tensor \<Rightarrow> tensor option" where
  "tf_add a b = elementwise (\<lambda>u v. u + v) a b"

definition tf_square :: "tensor \<Rightarrow> tensor" where
  "tf_square a = \<lparr>shape = shape a, elems = map (\<lambda>v. v * v) (elems a)\<rparr>"

text \<open>\<^verbatim>\<open>tf.pow(a, p)\<close>; the notebook applies it to sums of squares only, which are not negative.\<close>

definition tf_pow :: "tensor \<Rightarrow> real \<Rightarrow> tensor" where
  "tf_pow a p = \<lparr>shape = shape a, elems = map (\<lambda>v. v powr p) (elems a)\<rparr>"

definition tf_reduce_sum :: "tensor \<Rightarrow> real" where
  "tf_reduce_sum a = sum_list (elems a)"

text \<open>
  \<^verbatim>\<open>tf.transpose(x, (2, 0, 1))\<close>: element \<open>[c, h, w]\<close> of the result is element
  \<open>[h, w, c]\<close> of \<open>x\<close>. The permutation has three entries, so \<open>x\<close> has rank 3.
\<close>

definition tf_transpose_201 :: "'a ndarray \<Rightarrow> 'a ndarray option" where
  "tf_transpose_201 x =
     (case shape x of
        [H, W, C] \<Rightarrow> Some \<lparr>shape = [C, H, W], elems = grid3 C H W (\<lambda>c h w. at3 x h w c)\<rparr>
      | _ \<Rightarrow> None)"

text \<open>
  \<^verbatim>\<open>tf.reshape(x, (n, -1))\<close>: the elements stay in their order; the second dimension is
  inferred from the number of elements. For \<open>n = 0\<close> an empty array is reshaped to no rows
  (the second dimension is then inferred from the dimensions of \<open>x\<close> that are not zero), and
  an array with elements is refused.
\<close>

definition tf_reshape_rows :: "'a ndarray \<Rightarrow> nat \<Rightarrow> 'a ndarray option" where
  "tf_reshape_rows x n =
     (if n = 0
      then (if prod_list (shape x) = 0
            then Some \<lparr>shape = [0, prod_list (filter (\<lambda>d. d \<noteq> 0) (shape x))], elems = elems x\<rparr>
            else None)
      else if prod_list (shape x) mod n \<noteq> 0 then None
      else Some \<lparr>shape = [n, prod_list (shape x) div n], elems = elems x\<rparr>)"

text \<open>\<^verbatim>\<open>tf.transpose(a)\<close> of a matrix (the only rank the notebook passes).\<close>

definition tf_transpose :: "'a ndarray \<Rightarrow> 'a ndarray option" where
  "tf_transpose a =
     (case shape a of
        [n, m] \<Rightarrow> Some \<lparr>shape = [m, n], elems = grid2 m n (\<lambda>i j. at2 a j i)\<rparr>
      | _ \<Rightarrow> None)"

text \<open>\<^verbatim>\<open>tf.matmul(a, b)\<close> of two matrices (the only ranks the notebook passes).\<close>

definition tf_matmul :: "tensor \<Rightarrow> tensor \<Rightarrow> tensor option" where
  "tf_matmul a b =
     (case (shape a, shape b) of
        ([n, m], [m', p]) \<Rightarrow>
          if m = m'
          then Some \<lparr>shape = [n, p],
                     elems = grid2 n p (\<lambda>i j. \<Sum>l\<leftarrow>[0..<m]. at2 a i l * at2 b l j)\<rparr>
          else None
      | _ \<Rightarrow> None)"

text \<open>
  \<^verbatim>\<open>x[:, h0:h1, w0:w1, :]\<close> of a rank-4 tensor, for bounds already brought into range
  (\<open>h0 \<le> h1 \<le> H\<close> and \<open>w0 \<le> w1 \<le> W\<close>).
\<close>

definition slice_hw :: "'a ndarray \<Rightarrow> nat \<Rightarrow> nat \<Rightarrow> nat \<Rightarrow> nat \<Rightarrow> 'a ndarray option" where
  "slice_hw x h0 h1 w0 w1 =
     (case shape x of
        [N, H, W, C] \<Rightarrow>
          Some \<lparr>shape = [N, h1 - h0, w1 - w0, C],
                elems = grid4 N (h1 - h0) (w1 - w0) C (\<lambda>n h w c. at4 x n (h0 + h) (w0 + w) c)\<rparr>
      | _ \<Rightarrow> None)"

text \<open>
  The end of the Python slice \<^verbatim>\<open>:e\<close> on a dimension of size \<open>d\<close> (a negative \<open>e\<close>
  counts from the end), and the start of \<^verbatim>\<open>1:\<close>.
\<close>

definition py_stop :: "int \<Rightarrow> nat \<Rightarrow> nat" where
  "py_stop e d = (if e < 0 then nat (int d + e) else min (nat e) d)"

definition py_start1 :: "nat \<Rightarrow> nat" where
  "py_start1 d = min 1 d"

text \<open>\<^verbatim>\<open>x[n, :, :, :]\<close> of a rank-4 tensor.\<close>

definition select_batch :: "'a ndarray \<Rightarrow> nat \<Rightarrow> 'a ndarray option" where
  "select_batch x n =
     (case shape x of
        [N, H, W, C] \<Rightarrow>
          if n < N
          then Some \<lparr>shape = [H, W, C], elems = take (H * W * C) (drop (n * (H * W * C)) (elems x))\<rparr>
          else None
      | _ \<Rightarrow> None)"

text \<open>\<^verbatim>\<open>tf.concat(ts, axis=0)\<close>: the tensors agree on every dimension but the first.\<close>

definition tf_concat0 :: "'a ndarray list \<Rightarrow> 'a ndarray option" where
  "tf_concat0 ts =
     (case ts of
        [] \<Rightarrow> None
      | t # rest \<Rightarrow>
          if shape t \<noteq> [] \<and> (\<forall>u \<in> set rest. shape u \<noteq> [] \<and> tl (shape u) = tl (shape t))
          then Some \<lparr>shape = sum_list (map (\<lambda>u. hd (shape u)) ts) # tl (shape t),
                     elems = concat (map elems ts)\<rparr>
          else None)"


section \<open>Content loss\<close>

text \<open>
  \<^verbatim>\<open>
  def content_loss(base_img, combination_img):
      return tf.reduce_sum(tf.square(combination_img - base_img))
  \<close>
\<close>

definition content_loss :: "tensor \<Rightarrow> tensor \<Rightarrow> real option" where
  "content_loss base_img combination_img =
     map_option (\<lambda>d. tf_reduce_sum (tf_square d)) (tf_subtract combination_img base_img)"


section \<open>Style loss\<close>

text \<open>
  \<^verbatim>\<open>
  def gram_matrix(x):
      x = tf.transpose(x, (2, 0, 1))
      features = tf.reshape(x, (tf.shape(x)[0], -1))
      gram = tf.matmul(features, tf.transpose(features))
      return gram

  def style_loss(style_img, combination_img):
      S = gram_matrix(style_img)
      C = gram_matrix(combination_img)
      channels = 3
      size = img_height * img_width
      return tf.reduce_sum(tf.square(S - C)) / (4.0 * (channels ** 2) * (size ** 2))
  \<close>
  \<^verbatim>\<open>img_height\<close> and \<^verbatim>\<open>img_width\<close> are globals of the notebook (400, and the width
  that keeps the proportions of the picture); the functions that read them take them as
  arguments here.
\<close>

definition gram_matrix :: "tensor \<Rightarrow> tensor option" where
  "gram_matrix x = do {
     x \<leftarrow> tf_transpose_201 x;
     features \<leftarrow> tf_reshape_rows x (hd (shape x));
     features_t \<leftarrow> tf_transpose features;
     tf_matmul features features_t
   }"

definition style_loss :: "nat \<Rightarrow> nat \<Rightarrow> tensor \<Rightarrow> tensor \<Rightarrow> real option" where
  "style_loss img_height img_width style_img combination_img = do {
     S \<leftarrow> gram_matrix style_img;
     C \<leftarrow> gram_matrix combination_img;
     let channels = (3::nat);
     let size = img_height * img_width;
     d \<leftarrow> tf_subtract S C;
     Some (tf_reduce_sum (tf_square d) / (4 * real (channels ^ 2) * real (size ^ 2)))
   }"

text \<open>
  The Gram matrix of the mathematics: entry \<open>(i, j)\<close> is the inner product of the feature
  maps of channels \<open>i\<close> and \<open>j\<close> over all positions.
\<close>

definition gram_entry :: "tensor \<Rightarrow> nat \<Rightarrow> nat \<Rightarrow> real" where
  "gram_entry x i j =
     (\<Sum>h\<leftarrow>[0..<shape x ! 0]. \<Sum>w\<leftarrow>[0..<shape x ! 1]. at3 x h w i * at3 x h w j)"

text \<open>
  The style loss of one layer as the specification words it: the normaliser is built
  from the number of channels and the number of positions of the feature tensors compared.
\<close>

definition style_loss_spec :: "tensor \<Rightarrow> tensor \<Rightarrow> real" where
  "style_loss_spec style_img combination_img =
     (let channels = shape style_img ! 2;
          size = shape style_img ! 0 * shape style_img ! 1
      in (\<Sum>i\<leftarrow>[0..<channels]. \<Sum>j\<leftarrow>[0..<channels].
            (gram_entry style_img i j - gram_entry combination_img i j)\<^sup>2)
         / (4 * real (channels ^ 2) * real (size ^ 2)))"


section \<open>Total variation loss\<close>

text \<open>
  \<^verbatim>\<open>
  def total_variation_loss(x):
      a = tf.square(
          x[:, : img_height - 1, : img_width - 1, :] - x[:, 1:, : img_width - 1, :]
      )
      b = tf.square(
          x[:, : img_height - 1, : img_width - 1, :] - x[:, : img_height - 1, 1:, :]
      )
      return tf.reduce_sum(tf.pow(a + b, 1.25))
  \<close>
\<close>

definition total_variation_loss :: "nat \<Rightarrow> nat \<Rightarrow> tensor \<Rightarrow> real option" where
  "total_variation_loss img_height img_width x =
     (case shape x of
        [N, H, W, C] \<Rightarrow> do {
          let h_stop = py_stop (int img_height - 1) H;
          let w_stop = py_stop (int img_width - 1) W;
          x00 \<leftarrow> slice_hw x 0 h_stop 0 w_stop;
          x10 \<leftarrow> slice_hw x (py_start1 H) H 0 w_stop;
          da \<leftarrow> tf_subtract x00 x10;
          let a = tf_square da;
          x01 \<leftarrow> slice_hw x 0 h_stop (py_start1 W) W;
          db \<leftarrow> tf_subtract x00 x01;
          let b = tf_square db;
          ab \<leftarrow> tf_add a b;
          Some (tf_reduce_sum (tf_pow ab (5 / 4)))
        }
      | _ \<Rightarrow> None)"

text \<open>One summand of the total variation loss: position \<open>[n, h, w, c]\<close> against the
  position below it and the position to its right.\<close>

definition tv_term :: "tensor \<Rightarrow> nat \<Rightarrow> nat \<Rightarrow> nat \<Rightarrow> nat \<Rightarrow> real" where
  "tv_term x n h w c =
     ((at4 x n h w c - at4 x n (Suc h) w c) * (at4 x n h w c - at4 x n (Suc h) w c)
      + (at4 x n h w c - at4 x n h (Suc w) c) * (at4 x n h w c - at4 x n h (Suc w) c))
       powr (5 / 4)"


section \<open>The combined loss\<close>

text \<open>
  \<^verbatim>\<open>
  style_layer_names = ["block1_conv1", "block2_conv1", "block3_conv1",
                       "block4_conv1", "block5_conv1"]
  content_layer_name = "block5_conv2"
  total_variation_weight = 1e-6
  style_weight = 1e-6
  content_weight = 2.5e-8

  def compute_loss(combination_image, base_image, style_reference_image):
      input_tensor = tf.concat(
          [base_image, style_reference_image, combination_image], axis=0)
      features = feature_extractor(input_tensor)
      loss = tf.zeros(shape=())
      layer_features = features[content_layer_name]
      base_image_features = layer_features[0, :, :, :]
      combination_features = layer_features[2, :, :, :]
      loss = loss + content_weight * content_loss(
          base_image_features, combination_features)
      for layer_name in style_layer_names:
          layer_features = features[layer_name]
          style_reference_features = layer_features[1, :, :, :]
          combination_features = layer_features[2, :, :, :]
          style_loss_value = style_loss(
            style_reference_features, combination_features)
          loss += (style_weight / len(style_layer_names)) * style_loss_value
      loss += total_variation_weight * total_variation_loss(combination_image)
      return loss
  \<close>
  The pretrained network \<^verbatim>\<open>feature_extractor\<close> is a parameter: it maps the batch of
  three images to a dictionary from layer names to activations.
\<close>

definition style_layer_names :: "string list" where
  "style_layer_names =
     [''block1_conv1'', ''block2_conv1'', ''block3_conv1'', ''block4_conv1'', ''block5_conv1'']"

definition content_layer_name :: string where
  "content_layer_name = ''block5_conv2''"

definition total_variation_weight :: real where
  "total_variation_weight = 1 / 10 ^ 6"

definition style_weight :: real where
  "style_weight = 1 / 10 ^ 6"

definition content_weight :: real where
  "content_weight = 25 / 10 ^ 9"

type_synonym feature_extractor = "tensor \<Rightarrow> (string \<rightharpoonup> tensor)"

text \<open>The style loss of one layer, as the body of the loop computes it.\<close>

definition layer_style_loss :: "(string \<rightharpoonup> tensor) \<Rightarrow> nat \<Rightarrow> nat \<Rightarrow> string \<Rightarrow> real option" where
  "layer_style_loss features img_height img_width layer_name = do {
     layer_features \<leftarrow> features layer_name;
     style_reference_features \<leftarrow> select_batch layer_features 1;
     combination_features \<leftarrow> select_batch layer_features 2;
     style_loss img_height img_width style_reference_features combination_features
   }"

fun style_layers_loop ::
  "(string \<rightharpoonup> tensor) \<Rightarrow> nat \<Rightarrow> nat \<Rightarrow> string list \<Rightarrow> real \<Rightarrow> real option" where
  "style_layers_loop features img_height img_width [] loss = Some loss"
| "style_layers_loop features img_height img_width (layer_name # rest) loss = do {
     style_loss_value \<leftarrow> layer_style_loss features img_height img_width layer_name;
     style_layers_loop features img_height img_width rest
       (loss + (style_weight / real (length style_layer_names)) * style_loss_value)
   }"

definition compute_loss ::
  "feature_extractor \<Rightarrow> nat \<Rightarrow> nat \<Rightarrow> tensor \<Rightarrow> tensor \<Rightarrow> tensor \<Rightarrow> real option" where
  "compute_loss feature_extractor img_height img_width
       combination_image base_image style_reference_image = do {
     input_tensor \<leftarrow> tf_concat0 [base_image, style_reference_image, combination_image];
     let features = feature_extractor input_tensor;
     let loss = 0;
     layer_features \<leftarrow> features content_layer_name;
     base_image_features \<leftarrow> select_batch layer_features 0;
     combination_features \<leftarrow> select_batch layer_features 2;
     content_loss_value \<leftarrow> content_loss base_image_features combination_features;
     let loss = loss + content_weight * content_loss_value;
     loss \<leftarrow> style_layers_loop features img_height img_width style_layer_names loss;
     total_variation_loss_value \<leftarrow> total_variation_loss img_height img_width combination_image;
     Some (loss + total_variation_weight * total_variation_loss_value)
   }"


text \<open>
  What the network returns for a batch of three images: every layer the loss reads is
  there, with three activations of one shape and at least one channel.
\<close>

definition layers_ok :: "(string \<rightharpoonup> 'a ndarray) \<Rightarrow> bool" where
  "layers_ok features \<longleftrightarrow>
     (\<forall>name \<in> set (content_layer_name # style_layer_names).
        \<exists>t h w c. features name = Some t \<and> shape t = [3, h, w, c] \<and> 0 < c)"

definition extractor_ok :: "('a ndarray \<Rightarrow> (string \<rightharpoonup> 'a ndarray)) \<Rightarrow> nat \<Rightarrow> nat \<Rightarrow> bool" where
  "extractor_ok feature_extractor img_height img_width \<longleftrightarrow>
     (\<forall>inp. shape inp = [3, img_height, img_width, 3] \<longrightarrow> layers_ok (feature_extractor inp))"


section \<open>Floating-point arithmetic\<close>

text \<open>
  A 32-bit floating-point value is a finite number, one of the two infinities, or NaN. The
  two zeros are one value here (no comparison tells them apart). A real number is rounded to
  the nearest value with 24 significant bits, ties going to the even neighbour; below
  \<open>2\<^sup>-\<^sup>1\<^sup>2\<^sup>6\<close> the values are \<open>2\<^sup>-\<^sup>1\<^sup>4\<^sup>9\<close> apart (so a result of at most \<open>2\<^sup>-\<^sup>1\<^sup>5\<^sup>0\<close> in magnitude
  underflows to zero), and from \<open>2\<^sup>1\<^sup>2\<^sup>8 - 2\<^sup>1\<^sup>0\<^sup>3\<close> on the result overflows to an infinity.
  A library may also replace every result below \<open>2\<^sup>-\<^sup>1\<^sup>2\<^sup>6\<close> by zero; the thresholds in the
  statements about the losses are kept clear of that range.
\<close>

datatype f32 = Finite real | PosInf | NegInf | NaN

definition two_pow :: "int \<Rightarrow> real" where
  "two_pow k = (if 0 \<le> k then 2 ^ nat k else 1 / 2 ^ nat (- k))"

definition round_half_even :: "real \<Rightarrow> int" where
  "round_half_even z =
     (let f = \<lfloor>z\<rfloor>; d = z - of_int f
      in if d < 1 / 2 then f else if 1 / 2 < d then f + 1 else if even f then f else f + 1)"

text \<open>The distance between neighbouring floating-point values around \<open>x\<close>.\<close>

definition ulp :: "real \<Rightarrow> real" where
  "ulp x =
     (if \<bar>x\<bar> < two_pow (- 126) then two_pow (- 149) else two_pow (\<lfloor>log 2 \<bar>x\<bar>\<rfloor> - 23))"

definition f32_round :: "real \<Rightarrow> f32" where
  "f32_round x =
     (if two_pow 128 - two_pow 103 \<le> \<bar>x\<bar> then (if 0 < x then PosInf else NegInf)
      else Finite (of_int (round_half_even (x / ulp x)) * ulp x))"

text \<open>
  The operations: the exact result, rounded; and the rules for the infinities and NaN.
\<close>

fun fadd :: "f32 \<Rightarrow> f32 \<Rightarrow> f32" where
  "fadd (Finite x) (Finite y) = f32_round (x + y)"
| "fadd NaN b = NaN"
| "fadd a NaN = NaN"
| "fadd PosInf NegInf = NaN"
| "fadd NegInf PosInf = NaN"
| "fadd PosInf b = PosInf"
| "fadd NegInf b = NegInf"
| "fadd a PosInf = PosInf"
| "fadd a NegInf = NegInf"

fun fneg :: "f32 \<Rightarrow> f32" where
  "fneg (Finite x) = Finite (- x)"
| "fneg PosInf = NegInf"
| "fneg NegInf = PosInf"
| "fneg NaN = NaN"

definition fsub :: "f32 \<Rightarrow> f32 \<Rightarrow> f32" where
  "fsub a b = fadd a (fneg b)"

text \<open>The sign of a value that is not NaN: \<open>-1\<close>, \<open>0\<close> or \<open>1\<close>.\<close>

fun fsgn :: "f32 \<Rightarrow> real" where
  "fsgn (Finite x) = sgn x"
| "fsgn PosInf = 1"
| "fsgn NegInf = - 1"
| "fsgn NaN = 0"

fun fmul :: "f32 \<Rightarrow> f32 \<Rightarrow> f32" where
  "fmul (Finite x) (Finite y) = f32_round (x * y)"
| "fmul NaN b = NaN"
| "fmul a NaN = NaN"
| "fmul a b =
     (if fsgn a * fsgn b = 0 then NaN else if 0 < fsgn a * fsgn b then PosInf else NegInf)"


text \<open>
  \<^verbatim>\<open>pow(x, p)\<close> for an exponent \<open>p\<close> that is positive and not an integer (the notebook's
  is 1.25), taken to be rounded correctly.
\<close>

fun fpow :: "f32 \<Rightarrow> real \<Rightarrow> f32" where
  "fpow (Finite x) p = (if x < 0 then NaN else f32_round (x powr p))"
| "fpow PosInf p = PosInf"
| "fpow NegInf p = PosInf"
| "fpow NaN p = NaN"

text \<open>The comparisons \<^verbatim>\<open><\<close> and \<^verbatim>\<open><=\<close>: false as soon as one side is NaN.\<close>

fun f32_less :: "f32 \<Rightarrow> f32 \<Rightarrow> bool" where
  "f32_less NaN b = False"
| "f32_less a NaN = False"
| "f32_less (Finite x) (Finite y) = (x < y)"
| "f32_less a PosInf = (a \<noteq> PosInf)"
| "f32_less NegInf b = (b \<noteq> NegInf)"
| "f32_less a b = False"

fun f32_le :: "f32 \<Rightarrow> f32 \<Rightarrow> bool" where
  "f32_le NaN b = False"
| "f32_le a NaN = False"
| "f32_le (Finite x) (Finite y) = (x \<le> y)"
| "f32_le a PosInf = True"
| "f32_le NegInf b = True"
| "f32_le a b = False"

fun is_finite :: "f32 \<Rightarrow> bool" where
  "is_finite (Finite r) = True"
| "is_finite v = False"

fun the_real :: "f32 \<Rightarrow> real" where
  "the_real (Finite r) = r"
| "the_real v = 0"

text \<open>
  A value that is not negative and, when finite, is zero or at least the smallest positive
  floating-point value: what the rounding of a non-negative number gives.
\<close>

fun nng :: "f32 \<Rightarrow> bool" where
  "nng (Finite y) = (y = 0 \<or> two_pow (- 149) \<le> y)"
| "nng PosInf = True"
| "nng v = False"



section \<open>The losses in floating-point arithmetic\<close>

text \<open>
  The functions \<^verbatim>\<open>content_loss\<close>, \<^verbatim>\<open>gram_matrix\<close>, \<^verbatim>\<open>style_loss\<close>,
  \<^verbatim>\<open>total_variation_loss\<close> and \<^verbatim>\<open>compute_loss\<close> once more, line by line as above, on
  arrays of floating-point values. A Python number that meets an array is converted to its
  type first. The library does not fix the order in which a sum adds its terms; here the sum
  is taken from left to right. The statements about the sign and the vanishing of the losses
  rest on facts that hold for every order: a sum of values that are not negative is not
  negative, and it is zero only if all of them are.
\<close>

type_synonym tensor32 = "f32 ndarray"

definition tf_subtract32 :: "tensor32 \<Rightarrow> tensor32 \<Rightarrow> tensor32 option" where
  "tf_subtract32 a b = elementwise fsub a b"

definition tf_add32 :: "tensor32 \<Rightarrow> tensor32 \<Rightarrow> tensor32 option" where
  "tf_add32 a b = elementwise fadd a b"

definition tf_square32 :: "tensor32 \<Rightarrow> tensor32" where
  "tf_square32 a = \<lparr>shape = shape a, elems = map (\<lambda>v. fmul v v) (elems a)\<rparr>"

definition tf_pow32 :: "tensor32 \<Rightarrow> real \<Rightarrow> tensor32" where
  "tf_pow32 a p = \<lparr>shape = shape a, elems = map (\<lambda>v. fpow v p) (elems a)\<rparr>"

definition fsum :: "f32 list \<Rightarrow> f32" where
  "fsum vs = foldl fadd (Finite 0) vs"

definition tf_reduce_sum32 :: "tensor32 \<Rightarrow> f32" where
  "tf_reduce_sum32 a = fsum (elems a)"





definition total_variation_loss32 :: "nat \<Rightarrow> nat \<Rightarrow> tensor32 \<Rightarrow> f32 option" where
  "total_variation_loss32 img_height img_width x =
     (case shape x of
        [N, H, W, C] \<Rightarrow> do {
          let h_stop = py_stop (int img_height - 1) H;
          let w_stop = py_stop (int img_width - 1) W;
          x00 \<leftarrow> slice_hw x 0 h_stop 0 w_stop;
          x10 \<leftarrow> slice_hw x (py_start1 H) H 0 w_stop;
          da \<leftarrow> tf_subtract32 x00 x10;
          let a = tf_square32 da;
          x01 \<leftarrow> slice_hw x 0 h_stop (py_start1 W) W;
          db \<leftarrow> tf_subtract32 x00 x01;
          let b = tf_square32 db;
          ab \<leftarrow> tf_add32 a b;
          Some (tf_reduce_sum32 (tf_pow32 ab (5 / 4)))
        }
      | _ \<Rightarrow> None)"

text \<open>One summand of the total variation loss in floating-point arithmetic.\<close>

definition tv_term32 :: "tensor32 \<Rightarrow> nat \<Rightarrow> nat \<Rightarrow> nat \<Rightarrow> nat \<Rightarrow> f32" where
  "tv_term32 x n h w c =
     fpow (fadd (fmul (fsub (at4 x n h w c) (at4 x n (Suc h) w c))
                      (fsub (at4 x n h w c) (at4 x n (Suc h) w c)))
                (fmul (fsub (at4 x n h w c) (at4 x n h (Suc w) c))
                      (fsub (at4 x n h w c) (at4 x n h (Suc w) c))))
          (5 / 4)"





section \<open>Turning an array back into a picture\<close>

text \<open>
  \<^verbatim>\<open>
  def deprocess_image(img):
      img = img.reshape((img_height, img_width, 3))
      img[:, :, 0] += 103.939
      img[:, :, 1] += 116.779
      img[:, :, 2] += 123.68
      img = img[:, :, ::-1]
      img = np.clip(img, 0, 255).astype("uint8")
      return img
  \<close>
\<close>

record image =
  img_shape :: "nat list"
  pixels :: "8 word list"

definition np_reshape3 :: "tensor \<Rightarrow> nat \<Rightarrow> nat \<Rightarrow> nat \<Rightarrow> tensor option" where
  "np_reshape3 img h w c =
     (if length (elems img) = h * w * c then Some \<lparr>shape = [h, w, c], elems = elems img\<rparr>
      else None)"

text \<open>\<^verbatim>\<open>img[:, :, k] += m\<close> on a rank-3 array.\<close>

definition add_to_channel :: "tensor \<Rightarrow> nat \<Rightarrow> real \<Rightarrow> tensor option" where
  "add_to_channel img k m =
     (case shape img of
        [H, W, C] \<Rightarrow>
          if k < C
          then Some \<lparr>shape = [H, W, C],
                     elems = grid3 H W C (\<lambda>h w c. if c = k then at3 img h w c + m else at3 img h w c)\<rparr>
          else None
      | _ \<Rightarrow> None)"

text \<open>\<^verbatim>\<open>img[:, :, ::-1]\<close> on a rank-3 array.\<close>

definition reverse_channels :: "tensor \<Rightarrow> tensor option" where
  "reverse_channels img =
     (case shape img of
        [H, W, C] \<Rightarrow>
          Some \<lparr>shape = [H, W, C], elems = grid3 H W C (\<lambda>h w c. at3 img h w (C - 1 - c))\<rparr>
      | _ \<Rightarrow> None)"

definition np_clip :: "tensor \<Rightarrow> real \<Rightarrow> real \<Rightarrow> tensor" where
  "np_clip a a_min a_max = \<lparr>shape = shape a, elems = map (\<lambda>v. min (max v a_min) a_max) (elems a)\<rparr>"

text \<open>
  \<^verbatim>\<open>.astype("uint8")\<close>: the fraction is dropped and the integer stored in eight bits. The
  notebook applies it to clipped values only, which are not negative, so dropping the
  fraction is rounding down.
\<close>

definition astype_uint8 :: "tensor \<Rightarrow> image" where
  "astype_uint8 a = \<lparr>img_shape = shape a, pixels = map (\<lambda>v. word_of_int \<lfloor>v\<rfloor>) (elems a)\<rparr>"

definition deprocess_image :: "nat \<Rightarrow> nat \<Rightarrow> tensor \<Rightarrow> image option" where
  "deprocess_image img_height img_width img = do {
     img \<leftarrow> np_reshape3 img img_height img_width 3;
     img \<leftarrow> add_to_channel img 0 (103939 / 1000);
     img \<leftarrow> add_to_channel img 1 (116779 / 1000);
     img \<leftarrow> add_to_channel img 2 (12368 / 100);
     img \<leftarrow> reverse_channels img;
     let img = np_clip img 0 255;
     Some (astype_uint8 img)
   }"


section \<open>The learning-rate schedule and the optimizer\<close>

text \<open>
  \<^verbatim>\<open>
  optimizer = keras.optimizers.SGD(
      keras.optimizers.schedules.ExponentialDecay(
          initial_learning_rate=100.0, decay_steps=100, decay_rate=0.96
      )
  )
  \<close>
  The schedule of the library at optimizer step \<open>step\<close> is
  \<^verbatim>\<open>initial_learning_rate * decay_rate ^ (step / decay_steps)\<close>, where the quotient is
  rounded down only when the argument \<^verbatim>\<open>staircase\<close> is set. The notebook does not pass
  \<^verbatim>\<open>staircase\<close>, whose default is \<^verbatim>\<open>False\<close>.
\<close>

definition exponential_decay :: "real \<Rightarrow> nat \<Rightarrow> real \<Rightarrow> bool \<Rightarrow> nat \<Rightarrow> real" where
  "exponential_decay initial_learning_rate decay_steps decay_rate staircase step =
     (let p = real step / real decay_steps;
          p = (if staircase then of_int \<lfloor>p\<rfloor> else p)
      in initial_learning_rate * decay_rate powr p)"

definition learning_rate :: "nat \<Rightarrow> real" where
  "learning_rate step = exponential_decay 100 100 (96 / 100) False step"

text \<open>The rate as the specification words it: constant on windows of 100 steps.\<close>

definition learning_rate_spec :: "nat \<Rightarrow> real" where
  "learning_rate_spec n = 100 * (96 / 100) ^ (n div 100)"

text \<open>
  \<^verbatim>\<open>optimizer.apply_gradients([(grads, var)])\<close> of plain gradient descent: the variable
  moves against the gradient by the rate of the current step, and the step counter of
  the optimizer advances. The result is the new variable and the new counter.
\<close>

definition apply_gradients :: "nat \<Rightarrow> tensor \<Rightarrow> tensor \<Rightarrow> (tensor \<times> nat) option" where
  "apply_gradients step grads var =
     (if shape grads = shape var
      then Some (\<lparr>shape = shape var,
                  elems = map2 (\<lambda>v g. v - learning_rate step * g) (elems var) (elems grads)\<rparr>,
                 Suc step)
      else None)"


section \<open>The optimization loop\<close>

text \<open>
  \<^verbatim>\<open>
  def compute_loss_and_grads(combination_image, base_image, style_reference_image):
      with tf.GradientTape() as tape:
          loss = compute_loss(combination_image, base_image, style_reference_image)
      grads = tape.gradient(loss, combination_image)
      return loss, grads

  base_image = preprocess_image(base_image_path)
  style_reference_image = preprocess_image(style_reference_image_path)
  combination_image = tf.Variable(preprocess_image(base_image_path))

  iterations = 4000
  for i in range(1, iterations + 1):
      loss, grads = compute_loss_and_grads(
          combination_image, base_image, style_reference_image)
      optimizer.apply_gradients([(grads, combination_image)])
      if i % 100 == 0:
          print(f"Iteration {i}: loss={loss:.2f}")
          img = deprocess_image(combination_image.numpy())
          fname = f"combination_image_at_iteration_{i}.png"
          keras.utils.save_img(fname, img)
  \<close>
  The derivative that the tape computes is a parameter \<open>tape_gradient\<close>. The state of
  the run is the three arrays, the step counter of the optimizer, the lines printed (the
  iteration and the loss) and the files written, in order.
\<close>

definition compute_loss_and_grads ::
  "feature_extractor \<Rightarrow> (tensor \<Rightarrow> tensor \<Rightarrow> tensor \<Rightarrow> tensor) \<Rightarrow> nat \<Rightarrow> nat
     \<Rightarrow> tensor \<Rightarrow> tensor \<Rightarrow> tensor \<Rightarrow> (real \<times> tensor) option" where
  "compute_loss_and_grads feature_extractor tape_gradient img_height img_width
       combination_image base_image style_reference_image = do {
     loss \<leftarrow> compute_loss feature_extractor img_height img_width
               combination_image base_image style_reference_image;
     let grads = tape_gradient combination_image base_image style_reference_image;
     Some (loss, grads)
   }"

record run_state =
  combination_image :: tensor
  base_image :: tensor
  style_reference_image :: tensor
  optimizer_step :: nat
  printed :: "(nat \<times> real) list"
  saved :: "(string \<times> image) list"

text \<open>Decimal digits of a number, as an f-string prints it.\<close>

function str_nat :: "nat \<Rightarrow> string" where
  "str_nat n =
     (if n < 10 then [char_of (48 + n)]
      else str_nat (n div 10) @ [char_of (48 + n mod 10)])"
  by pat_completeness auto
termination
  by (relation "measure id") auto

declare str_nat.simps [simp del]

definition fname :: "nat \<Rightarrow> string" where
  "fname i = ''combination_image_at_iteration_'' @ str_nat i @ ''.png''"

definition iterations :: nat where
  "iterations = 4000"

definition initial_state :: "tensor \<Rightarrow> tensor \<Rightarrow> run_state" where
  "initial_state base style =
     \<lparr>combination_image = base, base_image = base, style_reference_image = style,
      optimizer_step = 0, printed = [], saved = []\<rparr>"

text \<open>The body of the loop at iteration \<open>i\<close>.\<close>

definition loop_body ::
  "feature_extractor \<Rightarrow> (tensor \<Rightarrow> tensor \<Rightarrow> tensor \<Rightarrow> tensor) \<Rightarrow> nat \<Rightarrow> nat
     \<Rightarrow> nat \<Rightarrow> run_state \<Rightarrow> run_state option" where
  "loop_body feature_extractor tape_gradient img_height img_width i st = do {
     (loss, grads) \<leftarrow> compute_loss_and_grads feature_extractor tape_gradient img_height img_width
                        (combination_image st) (base_image st) (style_reference_image st);
     (var, step) \<leftarrow> apply_gradients (optimizer_step st) grads (combination_image st);
     let st = st\<lparr>combination_image := var, optimizer_step := step\<rparr>;
     if i mod 100 = 0
     then do {
       img \<leftarrow> deprocess_image img_height img_width (combination_image st);
       Some (st\<lparr>printed := printed st @ [(i, loss)], saved := saved st @ [(fname i, img)]\<rparr>)
     }
     else Some st
   }"

text \<open>The loop over a range of iteration numbers; an exception in the body ends it.\<close>

fun for_loop ::
  "feature_extractor \<Rightarrow> (tensor \<Rightarrow> tensor \<Rightarrow> tensor \<Rightarrow> tensor) \<Rightarrow> nat \<Rightarrow> nat
     \<Rightarrow> nat list \<Rightarrow> run_state \<Rightarrow> run_state option" where
  "for_loop feature_extractor tape_gradient img_height img_width [] st = Some st"
| "for_loop feature_extractor tape_gradient img_height img_width (i # rest) st =
     (case loop_body feature_extractor tape_gradient img_height img_width i st of
        None \<Rightarrow> None
      | Some st' \<Rightarrow> for_loop feature_extractor tape_gradient img_height img_width rest st')"

definition style_transfer ::
  "feature_extractor \<Rightarrow> (tensor \<Rightarrow> tensor \<Rightarrow> tensor \<Rightarrow> tensor) \<Rightarrow> nat \<Rightarrow> nat
     \<Rightarrow> tensor \<Rightarrow> tensor \<Rightarrow> run_state option" where
  "style_transfer feature_extractor tape_gradient img_height img_width base style =
     for_loop feature_extractor tape_gradient img_height img_width
       [1..<iterations + 1] (initial_state base style)"


text \<open>
  What the tape returns: a gradient of the shape of the variable, with as many elements.
\<close>

definition gradient_ok :: "(tensor \<Rightarrow> tensor \<Rightarrow> tensor \<Rightarrow> tensor) \<Rightarrow> bool" where
  "gradient_ok tape_gradient \<longleftrightarrow>
     (\<forall>c b s. shape (tape_gradient c b s) = shape c
        \<and> length (elems (tape_gradient c b s)) = length (elems c))"

text \<open>The invariant of the loop: the three arrays keep the shape of the picture.\<close>

definition run_inv :: "nat \<Rightarrow> nat \<Rightarrow> run_state \<Rightarrow> bool" where
  "run_inv img_height img_width st \<longleftrightarrow>
     shape (combination_image st) = [1, img_height, img_width, 3]
   \<and> well_shaped (combination_image st)
   \<and> shape (base_image st) = [1, img_height, img_width, 3]
   \<and> shape (style_reference_image st) = [1, img_height, img_width, 3]"


section \<open>Sums of squares\<close>

lemma sum_list_squares_nonneg: "0 \<le> sum_list (map (\<lambda>v::real. v * v) xs)"
  by (induction xs) simp_all

lemma content_loss_value:
  "shape a = shape b \<Longrightarrow>
     content_loss a b = Some (sum_list (map (\<lambda>v. v * v) (map2 (\<lambda>u v. u - v) (elems b) (elems a))))"
  by (simp add: content_loss_def tf_subtract_def elementwise_def tf_square_def tf_reduce_sum_def)


section \<open>Row-major enumerations\<close>

lemma length_concat_blocks:
  "(\<And>i. i < n \<Longrightarrow> length (F i) = L) \<Longrightarrow> length (concat (map F [0..<n])) = n * L"
  by (induction n) simp_all

lemma nth_concat_blocks:
  "(\<And>i. i < n \<Longrightarrow> length (F i) = L) \<Longrightarrow> i < n \<Longrightarrow> j < L \<Longrightarrow>
     concat (map F [0..<n]) ! (i * L + j) = F i ! j"
proof (induction n)
  case 0
  then show ?case by simp
next
  case (Suc n)
  have len: "length (concat (map F [0..<n])) = n * L"
    using Suc.prems(1) by (intro length_concat_blocks) simp
  show ?case
  proof (cases "i < n")
    case True
    then have "Suc i \<le> n" by simp
    then have "Suc i * L \<le> n * L" by (rule mult_le_mono1)
    with \<open>j < L\<close> have "i * L + j < n * L" by simp
    with Suc True len show ?thesis by (simp add: nth_append)
  next
    case False
    with Suc.prems have "i = n" by simp
    with len show ?thesis by (simp add: nth_append)
  qed
qed

lemma length_grid2 [simp]: "length (grid2 n m f) = n * m"
  unfolding grid2_def by (rule length_concat_blocks) simp

lemma nth_grid2: "i < n \<Longrightarrow> j < m \<Longrightarrow> grid2 n m f ! (i * m + j) = f i j"
  unfolding grid2_def by (subst nth_concat_blocks [where L = m]) simp_all

lemma grid2_cong: "(\<And>i j. i < n \<Longrightarrow> j < m \<Longrightarrow> f i j = g i j) \<Longrightarrow> grid2 n m f = grid2 n m g"
  unfolding grid2_def by (auto intro!: arg_cong [where f = concat] map_cong)


lemma map2_same_map: "map2 g (map a xs) (map b xs) = map (\<lambda>x. g (a x) (b x)) xs"
  by (induction xs) simp_all

lemma map2_concat_blocks:
  "(\<And>i. i < n \<Longrightarrow> length (F i) = length (G i)) \<Longrightarrow>
     map2 g (concat (map F [0..<n])) (concat (map G [0..<n]))
       = concat (map (\<lambda>i. map2 g (F i) (G i)) [0..<n])"
proof (induction n)
  case 0
  show ?case by simp
next
  case (Suc n)
  have "length (concat (map F [0..<n])) = length (concat (map G [0..<n]))"
    using Suc.prems by (induction n) simp_all
  with Suc show ?case by simp
qed

lemma grid2_map2:
  "map2 g (grid2 n m f) (grid2 n m f') = grid2 n m (\<lambda>i j. g (f i j) (f' i j))"
  unfolding grid2_def by (simp add: map2_concat_blocks map2_same_map)

lemma length_grid3 [simp]: "length (grid3 n m p f) = n * (m * p)"
  unfolding grid3_def by (rule length_concat_blocks) simp

lemma grid3_map2:
  "map2 g (grid3 n m p f) (grid3 n m p f') = grid3 n m p (\<lambda>i j k. g (f i j k) (f' i j k))"
  unfolding grid3_def by (simp add: map2_concat_blocks grid2_map2)

lemma length_grid4 [simp]: "length (grid4 n m p q f) = n * (m * (p * q))"
  unfolding grid4_def by (rule length_concat_blocks) simp

lemma grid4_map2:
  "map2 g (grid4 n m p q f) (grid4 n m p q f') = grid4 n m p q (\<lambda>i j k l. g (f i j k l) (f' i j k l))"
  unfolding grid4_def by (simp add: map2_concat_blocks grid3_map2)

lemma map_grid2: "map h (grid2 n m f) = grid2 n m (\<lambda>i j. h (f i j))"
  unfolding grid2_def by (simp add: map_concat comp_def)

lemma map_grid3: "map h (grid3 n m p f) = grid3 n m p (\<lambda>i j k. h (f i j k))"
  unfolding grid3_def by (simp add: map_concat comp_def map_grid2)

lemma map_grid4: "map h (grid4 n m p q f) = grid4 n m p q (\<lambda>i j k l. h (f i j k l))"
  unfolding grid4_def by (simp add: map_concat comp_def map_grid3)

lemma grid4_cong:
  "(\<And>i j k l. i < n \<Longrightarrow> j < m \<Longrightarrow> k < p \<Longrightarrow> l < q \<Longrightarrow> f i j k l = g i j k l)
     \<Longrightarrow> grid4 n m p q f = grid4 n m p q g"
  unfolding grid4_def grid3_def grid2_def
  by (auto intro!: arg_cong [where f = concat] map_cong)

lemma sum_list_grid2:
  "sum_list (grid2 n m f) = (\<Sum>i\<leftarrow>[0..<n]. \<Sum>j\<leftarrow>[0..<m]. (f i j :: real))"
  unfolding grid2_def by (induction n) simp_all

lemma sum_list_map2_nth:
  "length xs = length ys \<Longrightarrow>
     (\<Sum>l\<leftarrow>[0..<length xs]. xs ! l * ys ! l) = sum_list (map2 (\<lambda>u v. u * v) xs (ys :: real list))"
proof -
  assume len: "length xs = length ys"
  have "map2 (\<lambda>u v. u * v) xs ys = map (\<lambda>l. xs ! l * ys ! l) [0..<length xs]"
    using len by (intro nth_equalityI) simp_all
  then show ?thesis by simp
qed


section \<open>What the Gram matrix and the total variation loss compute\<close>

lemma nth_grid3_block:
  "i < n \<Longrightarrow> l < m * p \<Longrightarrow> grid3 n m p f ! (i * (m * p) + l) = grid2 m p (f i) ! l"
  unfolding grid3_def by (subst nth_concat_blocks [where L = "m * p"]) simp_all

lemma gram_matrix_value:
  assumes sh: "shape x = [H, W, C]" and C: "0 < C"
  shows "gram_matrix x = Some \<lparr>shape = [C, C], elems = grid2 C C (gram_entry x)\<rparr>"
proof -
  let ?f = "\<lambda>c h w. at3 x h w c"
  let ?xt = "\<lparr>shape = [C, H, W], elems = grid3 C H W ?f\<rparr>"
  let ?fe = "\<lparr>shape = [C, H * W], elems = grid3 C H W ?f\<rparr>"
  let ?ft = "\<lparr>shape = [H * W, C], elems = grid2 (H * W) C (\<lambda>i j. at2 ?fe j i)\<rparr>"
  have xt: "tf_transpose_201 x = Some ?xt"
    using sh by (simp add: tf_transpose_201_def)
  have fe: "tf_reshape_rows ?xt (hd (shape ?xt)) = Some ?fe"
    using C by (simp add: tf_reshape_rows_def)
  have ft: "tf_transpose ?fe = Some ?ft"
    by (simp add: tf_transpose_def)
  have at_fe: "at2 ?fe i l = grid2 H W (?f i) ! l" if "i < C" "l < H * W" for i l
    using that by (simp add: at2_def nth_grid3_block)
  have at_ft: "at2 ?ft l j = at2 ?fe j l" if "l < H * W" "j < C" for l j
    using that by (simp add: at2_def nth_grid2)
  have entry: "(\<Sum>l\<leftarrow>[0..<H * W]. at2 ?fe i l * at2 ?ft l j) = gram_entry x i j"
    if "i < C" "j < C" for i j
  proof -
    have "(\<Sum>l\<leftarrow>[0..<H * W]. at2 ?fe i l * at2 ?ft l j)
            = (\<Sum>l\<leftarrow>[0..<H * W]. grid2 H W (?f i) ! l * grid2 H W (?f j) ! l)"
      using that by (intro arg_cong [where f = sum_list] map_cong) (simp_all add: at_fe at_ft)
    also have "\<dots> = sum_list (map2 (\<lambda>u v. u * v) (grid2 H W (?f i)) (grid2 H W (?f j)))"
      using sum_list_map2_nth [of "grid2 H W (?f i)" "grid2 H W (?f j)"] by simp
    also have "\<dots> = gram_entry x i j"
      using sh by (simp add: grid2_map2 sum_list_grid2 gram_entry_def)
    finally show ?thesis .
  qed
  have "grid2 C C (\<lambda>i j. \<Sum>l\<leftarrow>[0..<H * W]. at2 ?fe i l * at2 ?ft l j) = grid2 C C (gram_entry x)"
    by (intro grid2_cong entry)
  then have "tf_matmul ?fe ?ft = Some \<lparr>shape = [C, C], elems = grid2 C C (gram_entry x)\<rparr>"
    by (simp add: tf_matmul_def)
  with xt fe ft show ?thesis
    by (simp add: gram_matrix_def)
qed

lemma gram_entry_commute: "gram_entry x i j = gram_entry x j i"
  by (simp add: gram_entry_def mult.commute)

lemma total_variation_loss_value:
  assumes sh: "shape x = [N, H, W, C]"
  shows "total_variation_loss H W x = Some (sum_list (grid4 N (H - 1) (W - 1) C (tv_term x)))"
proof -
  let ?x00 = "\<lparr>shape = [N, H - 1, W - 1, C],
               elems = grid4 N (H - 1) (W - 1) C (\<lambda>n h w c. at4 x n h w c)\<rparr>"
  let ?x10 = "\<lparr>shape = [N, H - 1, W - 1, C],
               elems = grid4 N (H - 1) (W - 1) C (\<lambda>n h w c. at4 x n (Suc h) w c)\<rparr>"
  let ?x01 = "\<lparr>shape = [N, H - 1, W - 1, C],
               elems = grid4 N (H - 1) (W - 1) C (\<lambda>n h w c. at4 x n h (Suc w) c)\<rparr>"
  have hs: "py_stop (int H - 1) H = H - 1" and ws: "py_stop (int W - 1) W = W - 1"
    by (auto simp: py_stop_def)
  have x00: "slice_hw x 0 (H - 1) 0 (W - 1) = Some ?x00"
    using sh by (simp add: slice_hw_def)
  have "grid4 N (H - py_start1 H) (W - 1) C (\<lambda>n h w c. at4 x n (py_start1 H + h) (0 + w) c)
          = grid4 N (H - 1) (W - 1) C (\<lambda>n h w c. at4 x n (Suc h) w c)"
    by (cases H) (auto simp: py_start1_def intro!: grid4_cong)
  moreover have "H - py_start1 H = H - 1"
    by (simp add: py_start1_def min_def)
  ultimately have x10: "slice_hw x (py_start1 H) H 0 (W - 1) = Some ?x10"
    using sh by (simp add: slice_hw_def)
  have "grid4 N (H - 1) (W - py_start1 W) C (\<lambda>n h w c. at4 x n (0 + h) (py_start1 W + w) c)
          = grid4 N (H - 1) (W - 1) C (\<lambda>n h w c. at4 x n h (Suc w) c)"
    by (cases W) (auto simp: py_start1_def intro!: grid4_cong)
  moreover have "W - py_start1 W = W - 1"
    by (simp add: py_start1_def min_def)
  ultimately have x01: "slice_hw x 0 (H - 1) (py_start1 W) W = Some ?x01"
    using sh by (simp add: slice_hw_def)
  show ?thesis
    using sh
    by (simp add: total_variation_loss_def Let_def hs ws x00 x10 x01 tf_subtract_def elementwise_def tf_add_def
        tf_square_def tf_pow_def tf_reduce_sum_def grid4_map2 map_grid4 tv_term_def [abs_def]
        del: One_nat_def)
qed


lemma nth_grid2_at2:
  "shape g = [n, m] \<Longrightarrow> elems g = grid2 n m f \<Longrightarrow> i < n \<Longrightarrow> j < m \<Longrightarrow> at2 g i j = f i j"
  by (simp add: at2_def nth_grid2)

lemma sum_sq_diff_commute:
  "sum_list (map (\<lambda>v. v * v) (map2 (\<lambda>u v. u - v) xs ys))
     = sum_list (map (\<lambda>v::real. v * v) (map2 (\<lambda>u v. u - v) ys xs))"
proof (induction xs arbitrary: ys)
  case Nil
  show ?case by simp
next
  case (Cons x xs)
  show ?case
  proof (cases ys)
    case Nil
    then show ?thesis by simp
  next
    case (Cons y ys')
    have "(x - y) * (x - y) = (y - x) * (y - x)" by (simp add: algebra_simps)
    with Cons Cons.IH [of ys'] show ?thesis by simp
  qed
qed

lemma broadcast_dims_commute: "broadcast_dims xs ys = broadcast_dims ys xs"
proof (induction xs ys rule: broadcast_dims.induct)
  case (1 ys)
  show ?case by (cases ys) simp_all
next
  case (2 x xs)
  show ?case by simp
next
  case (3 x xs y ys)
  then show ?case by auto
qed

lemma broadcast_shape_commute: "broadcast_shape s t = broadcast_shape t s"
  by (simp add: broadcast_shape_def broadcast_dims_commute [of "rev s" "rev t"])

lemma tf_subtract_commute:
  "map_option (\<lambda>d. tf_reduce_sum (tf_square d)) (tf_subtract a b)
     = map_option (\<lambda>d. tf_reduce_sum (tf_square d)) (tf_subtract b a)"
proof (cases "shape a = shape b")
  case True
  with sum_sq_diff_commute [of "elems a" "elems b"] show ?thesis
    by (simp add: tf_subtract_def elementwise_def tf_square_def tf_reduce_sum_def)
next
  case False
  then have ne: "shape a \<noteq> shape b" "shape b \<noteq> shape a" by simp_all
  have bs: "broadcast_shape (shape b) (shape a) = broadcast_shape (shape a) (shape b)"
    by (rule broadcast_shape_commute)
  show ?thesis
  proof (cases "broadcast_shape (shape a) (shape b)")
    case None
    with ne bs show ?thesis
      by (simp add: tf_subtract_def elementwise_def)
  next
    case (Some r)
    with ne bs sum_sq_diff_commute [of "broadcast_to a r" "broadcast_to b r"] show ?thesis
      by (simp add: tf_subtract_def elementwise_def tf_square_def tf_reduce_sum_def)
  qed
qed

lemma content_loss_commute: "content_loss a b = content_loss b a"
  by (simp add: content_loss_def tf_subtract_commute [of a b])

lemma style_loss_commute: "style_loss ih iw s c = style_loss ih iw c s"
proof (cases "gram_matrix s")
  case None
  then show ?thesis by (cases "gram_matrix c") (simp_all add: style_loss_def)
next
  case (Some S)
  show ?thesis
  proof (cases "gram_matrix c")
    case None
    with Some show ?thesis by (simp add: style_loss_def)
  next
    case (Some C)
    from tf_subtract_commute [of S C] show ?thesis
      by (cases "tf_subtract S C"; cases "tf_subtract C S")
        (simp_all add: style_loss_def \<open>gram_matrix s = Some S\<close> Some)
  qed
qed

lemma style_loss_value:
  assumes "shape s = [h, w, C]" and "shape c = [h', w', C]" and "0 < C"
  shows "style_loss ih iw s c =
           Some ((\<Sum>i\<leftarrow>[0..<C]. \<Sum>j\<leftarrow>[0..<C]. (gram_entry s i j - gram_entry c i j)\<^sup>2)
                 / (4 * 3\<^sup>2 * (real ih * real iw)\<^sup>2))"
  using assms
  by (simp add: style_loss_def gram_matrix_value [of s h w C] gram_matrix_value [of c h' w' C]
      tf_subtract_def elementwise_def tf_square_def tf_reduce_sum_def grid2_map2 map_grid2 sum_list_grid2
      power2_eq_square)

lemma style_layers_loop_value:
  "map (layer_style_loss f ih iw) names = map Some vs \<Longrightarrow>
     style_layers_loop f ih iw names loss
       = Some (loss + (style_weight / real (length style_layer_names)) * sum_list vs)"
proof (induction names arbitrary: vs loss)
  case Nil
  then show ?case by simp
next
  case (Cons name names)
  then obtain v vs' where vs: "vs = v # vs'" and v: "layer_style_loss f ih iw name = Some v"
    and rest: "map (layer_style_loss f ih iw) names = map Some vs'"
    by (cases vs) auto
  show ?case
    using Cons.IH [OF rest] v vs by (simp add: distrib_left add.assoc)
qed

lemma style_layers_loop_Some:
  "style_layers_loop f ih iw names loss = Some L \<Longrightarrow>
     \<exists>vs. map (layer_style_loss f ih iw) names = map Some vs"
proof (induction names arbitrary: loss)
  case Nil
  then show ?case by simp
next
  case (Cons name names)
  from Cons.prems obtain v where v: "layer_style_loss f ih iw name = Some v"
    and rest: "style_layers_loop f ih iw names
                 (loss + (style_weight / real (length style_layer_names)) * v) = Some L"
    by (auto simp: bind_eq_Some_conv)
  from Cons.IH [OF rest] obtain vs where "map (layer_style_loss f ih iw) names = map Some vs" ..
  with v have "map (layer_style_loss f ih iw) (name # names) = map Some (v # vs)" by simp
  then show ?case ..
qed

lemma compute_loss_parts:
  assumes "compute_loss fe ih iw comb base style = Some L"
  shows "\<exists>inp lf bf cf cl vs tv.
           tf_concat0 [base, style, comb] = Some inp
         \<and> fe inp content_layer_name = Some lf
         \<and> select_batch lf 0 = Some bf \<and> select_batch lf 2 = Some cf
         \<and> content_loss bf cf = Some cl
         \<and> map (layer_style_loss (fe inp) ih iw) style_layer_names = map Some vs
         \<and> total_variation_loss ih iw comb = Some tv
         \<and> L = content_weight * cl
               + style_weight * (sum_list vs / real (length style_layer_names))
               + total_variation_weight * tv"
proof -
  from assms obtain inp lf bf cf cl sl tv where
    inp: "tf_concat0 [base, style, comb] = Some inp" and
    lf: "fe inp content_layer_name = Some lf" and
    bf: "select_batch lf 0 = Some bf" and cf: "select_batch lf 2 = Some cf" and
    cl: "content_loss bf cf = Some cl" and
    sl: "style_layers_loop (fe inp) ih iw style_layer_names (0 + content_weight * cl) = Some sl" and
    tv: "total_variation_loss ih iw comb = Some tv" and
    L: "L = sl + total_variation_weight * tv"
    by (auto simp: compute_loss_def Let_def bind_eq_Some_conv)
  from style_layers_loop_Some [OF sl] obtain vs where
    vs: "map (layer_style_loss (fe inp) ih iw) style_layer_names = map Some vs" ..
  from style_layers_loop_value [OF vs, of "0 + content_weight * cl"] sl
  have "sl = content_weight * cl + style_weight * (sum_list vs / real (length style_layer_names))"
    by simp
  with inp lf bf cf cl vs tv L show ?thesis by blast
qed

lemma map_Some_ex:
  "(\<And>x. x \<in> set xs \<Longrightarrow> \<exists>v. g x = Some v) \<Longrightarrow> \<exists>vs. map g xs = map Some vs"
proof (induction xs)
  case Nil
  show ?case by simp
next
  case (Cons x xs)
  then obtain v vs where "g x = Some v" "map g xs = map Some vs"
    by (meson list.set_intros)
  then have "map g (x # xs) = map Some (v # vs)" by simp
  then show ?case ..
qed

lemma select_batch_shape:
  "shape t = [N, h, w, c] \<Longrightarrow> n < N \<Longrightarrow> \<exists>u. select_batch t n = Some u \<and> shape u = [h, w, c]"
  by (simp add: select_batch_def)

lemma layer_style_loss_total:
  assumes "f name = Some t" and "shape t = [3, h, w, c]" and "0 < c"
  shows "\<exists>v. layer_style_loss f ih iw name = Some v"
proof -
  from select_batch_shape [OF assms(2), of 1] obtain s where
    s: "select_batch t 1 = Some s" "shape s = [h, w, c]" by auto
  from select_batch_shape [OF assms(2), of 2] obtain u where
    u: "select_batch t 2 = Some u" "shape u = [h, w, c]" by auto
  from style_loss_value [OF s(2) u(2) assms(3), of ih iw] assms(1) s(1) u(1)
  show ?thesis by (simp add: layer_style_loss_def)
qed

lemma compute_loss_total:
  assumes comb: "shape comb = [1, ih, iw, 3]" and base: "shape base = [1, ih, iw, 3]"
    and style: "shape style = [1, ih, iw, 3]"
    and fe: "extractor_ok fe ih iw"
  shows "\<exists>L. compute_loss fe ih iw comb base style = Some L"
proof -
  let ?inp = "\<lparr>shape = [3, ih, iw, 3], elems = elems base @ elems style @ elems comb\<rparr>"
  have inp: "tf_concat0 [base, style, comb] = Some ?inp"
    using comb base style by (simp add: tf_concat0_def)
  have ok: "layers_ok (fe ?inp)" using fe by (simp add: extractor_ok_def)
  then obtain lf h w c where lf: "fe ?inp content_layer_name = Some lf"
    "shape lf = [3, h, w, c]"
    by (auto simp: extractor_ok_def layers_ok_def)
  from select_batch_shape [OF lf(2), of 0] obtain bf where
    bf: "select_batch lf 0 = Some bf" "shape bf = [h, w, c]" by auto
  from select_batch_shape [OF lf(2), of 2] obtain cf where
    cf: "select_batch lf 2 = Some cf" "shape cf = [h, w, c]" by auto
  have cl: "\<exists>cl. content_loss bf cf = Some cl"
    using bf(2) cf(2) by (simp add: content_loss_def tf_subtract_def elementwise_def)
  have "\<exists>v. layer_style_loss (fe ?inp) ih iw name = Some v" if "name \<in> set style_layer_names" for name
  proof -
    from ok that obtain t h' w' c' where "fe ?inp name = Some t" "shape t = [3, h', w', c']" "0 < c'"
      unfolding layers_ok_def by (metis list.set_intros(2))
    then show ?thesis by (rule layer_style_loss_total)
  qed
  then obtain vs where vs: "map (layer_style_loss (fe ?inp) ih iw) style_layer_names = map Some vs"
    using map_Some_ex [of style_layer_names "layer_style_loss (fe ?inp) ih iw"] by auto
  from cl obtain clv where clv: "content_loss bf cf = Some clv" ..
  show ?thesis
    using inp lf(1) bf(1) cf(1) clv style_layers_loop_value [OF vs]
      total_variation_loss_value [OF comb]
    by (simp add: compute_loss_def)
qed

lemma upt_0_1: "[0..<1] = [0]" by simp
lemma upt_0_2: "[0..<2] = [0, 1]" by code_simp
lemma upt_0_3: "[0..<3] = [0, 1, 2]" by code_simp


lemma add_to_channel_shape:
  "shape t = [H, W, C] \<Longrightarrow> k < C \<Longrightarrow>
     \<exists>u. add_to_channel t k m = Some u \<and> shape u = [H, W, C]"
  by (simp add: add_to_channel_def)

lemma reverse_channels_shape:
  "shape t = [H, W, C] \<Longrightarrow>
     \<exists>u. reverse_channels t = Some u \<and> shape u = [H, W, C] \<and> length (elems u) = H * (W * C)"
  by (simp add: reverse_channels_def)

lemma uint8_of_clipped:
  fixes v :: real
  assumes "0 \<le> v" and "v \<le> 255"
  shows "uint (word_of_int \<lfloor>v\<rfloor> :: 8 word) = \<lfloor>v\<rfloor>" and "0 \<le> \<lfloor>v\<rfloor>" and "\<lfloor>v\<rfloor> \<le> 255"
proof -
  show lo: "0 \<le> \<lfloor>v\<rfloor>" using assms(1) by simp
  show hi: "\<lfloor>v\<rfloor> \<le> 255" using assms(2) by (simp add: floor_le_iff)
  from lo hi have "take_bit 8 \<lfloor>v\<rfloor> = \<lfloor>v\<rfloor>"
    by (simp add: take_bit_int_eq_self)
  then show "uint (word_of_int \<lfloor>v\<rfloor> :: 8 word) = \<lfloor>v\<rfloor>"
    by (simp add: uint_word_of_int_eq)
qed

lemma deprocess_image_value:
  assumes "length (elems img) = img_height * img_width * 3"
  shows "\<exists>t. deprocess_image img_height img_width img = Some (astype_uint8 (np_clip t 0 255))
           \<and> shape t = [img_height, img_width, 3]
           \<and> length (elems t) = img_height * (img_width * 3)"
proof -
  let ?t0 = "\<lparr>shape = [img_height, img_width, 3], elems = elems img\<rparr>"
  have t0: "np_reshape3 img img_height img_width 3 = Some ?t0"
    using assms by (simp add: np_reshape3_def)
  obtain t1 where t1: "add_to_channel ?t0 0 (103939 / 1000) = Some t1"
    "shape t1 = [img_height, img_width, 3]"
    using add_to_channel_shape [of ?t0 img_height img_width 3 0] by auto
  obtain t2 where t2: "add_to_channel t1 1 (116779 / 1000) = Some t2"
    "shape t2 = [img_height, img_width, 3]"
    using add_to_channel_shape [OF t1(2), of 1] by auto
  obtain t3 where t3: "add_to_channel t2 2 (12368 / 100) = Some t3"
    "shape t3 = [img_height, img_width, 3]"
    using add_to_channel_shape [OF t2(2), of 2] by auto
  obtain t4 where t4: "reverse_channels t3 = Some t4" "shape t4 = [img_height, img_width, 3]"
    "length (elems t4) = img_height * (img_width * 3)"
    using reverse_channels_shape [OF t3(2)] by auto
  have "deprocess_image img_height img_width img = Some (astype_uint8 (np_clip t4 0 255))"
    using t0 t1(1) t2(1) t3(1) t4(1) by (simp add: deprocess_image_def)
  with t4(2,3) show ?thesis by blast
qed

lemma deprocess_image_total:
  "length (elems img) = img_height * img_width * 3 \<Longrightarrow>
     \<exists>out. deprocess_image img_height img_width img = Some out"
  using deprocess_image_value by blast

lemma deprocess_image_example:
  "deprocess_image 1 1 \<lparr>shape = [1, 1, 1, 3], elems = [- 200, 0, 300]\<rparr>
     = Some \<lparr>img_shape = [1, 1, 3], pixels = [255, 116, 0]\<rparr>"
  by (simp add: deprocess_image_def np_reshape3_def add_to_channel_def reverse_channels_def
      np_clip_def astype_uint8_def grid3_def grid2_def at3_def upt_0_3)


lemma learning_rate_value: "learning_rate n = 100 * (96 / 100) powr (real n / 100)"
  by (simp add: learning_rate_def exponential_decay_def)


section \<open>The loop, one iteration after the other\<close>

lemma loop_body_frame:
  assumes "loop_body fe g H W i st = Some st'"
  shows "base_image st' = base_image st \<and> style_reference_image st' = style_reference_image st"
  using assms
  by (auto simp: loop_body_def Let_def bind_eq_Some_conv split: if_splits prod.splits)

lemma loop_body_saved_prefix:
  assumes "loop_body fe g H W i st = Some st'"
  shows "\<exists>more. saved st' = saved st @ more"
  using assms
  by (auto simp: loop_body_def Let_def bind_eq_Some_conv split: if_splits prod.splits)

lemma loop_body_total:
  assumes inv: "run_inv H W st"
    and fe: "extractor_ok fe H W"
    and g: "gradient_ok g"
  shows "\<exists>st'. loop_body fe g H W i st = Some st' \<and> run_inv H W st'
           \<and> optimizer_step st' = Suc (optimizer_step st)
           \<and> (if i mod 100 = 0
               then \<exists>img. deprocess_image H W (combination_image st') = Some img
                      \<and> saved st' = saved st @ [(fname i, img)]
                      \<and> map fst (printed st') = map fst (printed st) @ [i]
               else saved st' = saved st \<and> printed st' = printed st)"
proof -
  let ?c = "combination_image st" and ?b = "base_image st" and ?s = "style_reference_image st"
  from inv have sh: "shape ?c = [1, H, W, 3]" "shape ?b = [1, H, W, 3]" "shape ?s = [1, H, W, 3]"
    and wf: "well_shaped ?c"
    by (simp_all add: run_inv_def)
  have "\<exists>L. compute_loss fe H W ?c ?b ?s = Some L"
    using sh fe by (rule compute_loss_total)
  then obtain loss where loss: "compute_loss fe H W ?c ?b ?s = Some loss" ..
  let ?grads = "g ?c ?b ?s"
  let ?var = "\<lparr>shape = shape ?c,
               elems = map2 (\<lambda>v g. v - learning_rate (optimizer_step st) * g) (elems ?c) (elems ?grads)\<rparr>"
  have gs: "shape ?grads = shape ?c" "length (elems ?grads) = length (elems ?c)"
    using g by (simp_all add: gradient_ok_def)
  have clg: "compute_loss_and_grads fe g H W ?c ?b ?s = Some (loss, ?grads)"
    using loss by (simp add: compute_loss_and_grads_def)
  have ag: "apply_gradients (optimizer_step st) ?grads ?c = Some (?var, Suc (optimizer_step st))"
    using gs(1) by (simp add: apply_gradients_def)
  have var_sh: "shape ?var = [1, H, W, 3]" using sh(1) by simp
  have var_len: "length (elems ?var) = H * W * 3"
    using wf sh(1) gs(2) by (simp add: well_shaped_def)
  have var_wf: "well_shaped ?var"
    using var_len sh(1) by (simp add: well_shaped_def)
  let ?st1 = "st\<lparr>combination_image := ?var, optimizer_step := Suc (optimizer_step st)\<rparr>"
  have "shape (combination_image ?st1) = [1, H, W, 3]"
    using var_sh by simp
  moreover have "well_shaped (combination_image ?st1)"
    using var_wf by simp
  moreover have "shape (base_image ?st1) = [1, H, W, 3]"
    using sh(2) by simp
  moreover have "shape (style_reference_image ?st1) = [1, H, W, 3]"
    using sh(3) by simp
  ultimately have inv1: "run_inv H W ?st1"
    unfolding run_inv_def by (intro conjI)
  show ?thesis
  proof (cases "i mod 100 = 0")
    case True
    from deprocess_image_total [OF var_len] obtain img where
      img: "deprocess_image H W ?var = Some img" by blast
    let ?st2 = "?st1\<lparr>printed := printed ?st1 @ [(i, loss)], saved := saved ?st1 @ [(fname i, img)]\<rparr>"
    have "loop_body fe g H W i st = Some ?st2"
      using clg ag img True by (simp add: loop_body_def)
    moreover have "run_inv H W ?st2"
      using inv1 by (simp add: run_inv_def well_shaped_def)
    ultimately show ?thesis
      using True img by simp
  next
    case False
    have "loop_body fe g H W i st = Some ?st1"
      using clg ag False by (simp add: loop_body_def)
    with inv1 False show ?thesis by simp
  qed
qed


lemma for_loop_append:
  "for_loop fe g H W (xs @ ys) st =
     (case for_loop fe g H W xs st of None \<Rightarrow> None | Some st' \<Rightarrow> for_loop fe g H W ys st')"
  by (induction xs arbitrary: st) (simp_all split: option.splits)

lemma for_loop_frame:
  "for_loop fe g H W xs st = Some st' \<Longrightarrow>
     base_image st' = base_image st \<and> style_reference_image st' = style_reference_image st"
proof (induction xs arbitrary: st)
  case Nil
  then show ?case by simp
next
  case (Cons i xs)
  then obtain st1 where st1: "loop_body fe g H W i st = Some st1"
    and rest: "for_loop fe g H W xs st1 = Some st'"
    by (auto split: option.splits)
  from loop_body_frame [OF st1] Cons.IH [OF rest] show ?case by simp
qed

lemma for_loop_saved_prefix:
  "for_loop fe g H W xs st = Some st' \<Longrightarrow> \<exists>more. saved st' = saved st @ more"
proof (induction xs arbitrary: st)
  case Nil
  then show ?case by simp
next
  case (Cons i xs)
  then obtain st1 where st1: "loop_body fe g H W i st = Some st1"
    and rest: "for_loop fe g H W xs st1 = Some st'"
    by (auto split: option.splits)
  from loop_body_saved_prefix [OF st1] Cons.IH [OF rest] show ?case by auto
qed

lemma for_loop_total:
  assumes fe: "extractor_ok fe H W"
    and g: "gradient_ok g"
  shows "run_inv H W st \<Longrightarrow>
     \<exists>st'. for_loop fe g H W xs st = Some st' \<and> run_inv H W st'
       \<and> optimizer_step st' = optimizer_step st + length xs
       \<and> map fst (saved st') = map fst (saved st) @ map fname (filter (\<lambda>i. i mod 100 = 0) xs)
       \<and> map fst (printed st') = map fst (printed st) @ filter (\<lambda>i. i mod 100 = 0) xs"
proof (induction xs arbitrary: st)
  case Nil
  then show ?case by simp
next
  case (Cons i xs)
  from loop_body_total [where i = i, OF Cons.prems fe g] obtain st1 where
    st1: "loop_body fe g H W i st = Some st1" and inv1: "run_inv H W st1"
    and step1: "optimizer_step st1 = Suc (optimizer_step st)"
    and out1: "if i mod 100 = 0
               then \<exists>img. deprocess_image H W (combination_image st1) = Some img
                      \<and> saved st1 = saved st @ [(fname i, img)]
                      \<and> map fst (printed st1) = map fst (printed st) @ [i]
               else saved st1 = saved st \<and> printed st1 = printed st"
    by blast
  from Cons.IH [OF inv1] obtain st' where
    st': "for_loop fe g H W xs st1 = Some st'" and inv': "run_inv H W st'"
    and step': "optimizer_step st' = optimizer_step st1 + length xs"
    and saved': "map fst (saved st') = map fst (saved st1) @ map fname (filter (\<lambda>i. i mod 100 = 0) xs)"
    and printed': "map fst (printed st') = map fst (printed st1) @ filter (\<lambda>i. i mod 100 = 0) xs"
    by blast
  have "for_loop fe g H W (i # xs) st = Some st'"
    using st1 st' by simp
  moreover have "optimizer_step st' = optimizer_step st + length (i # xs)"
    using step1 step' by simp
  moreover have "map fst (saved st') = map fst (saved st) @ map fname (filter (\<lambda>i. i mod 100 = 0) (i # xs))"
    using out1 saved' by (auto split: if_splits)
  moreover have "map fst (printed st') = map fst (printed st) @ filter (\<lambda>i. i mod 100 = 0) (i # xs)"
    using out1 printed' by (auto split: if_splits)
  ultimately show ?case using inv' by blast
qed

lemma for_loop_snapshot:
  assumes fe: "extractor_ok fe H W"
    and g: "gradient_ok g" and inv: "run_inv H W st" and i: "i mod 100 = 0"
  shows "\<exists>st' img. for_loop fe g H W (xs @ [i]) st = Some st'
           \<and> deprocess_image H W (combination_image st') = Some img
           \<and> (fname i, img) \<in> set (saved st')"
proof -
  from for_loop_total [where xs = xs, OF fe g inv] obtain st1 where
    st1: "for_loop fe g H W xs st = Some st1" and inv1: "run_inv H W st1"
    by blast
  from loop_body_total [where i = i, OF inv1 fe g] i obtain st' img where
    "loop_body fe g H W i st1 = Some st'" "deprocess_image H W (combination_image st') = Some img"
    "saved st' = saved st1 @ [(fname i, img)]"
    by auto
  then show ?thesis
    using st1 by (auto simp: for_loop_append)
qed

lemma initial_state_inv:
  "shape base = [1, H, W, 3] \<Longrightarrow> well_shaped base \<Longrightarrow> shape style = [1, H, W, 3] \<Longrightarrow>
     run_inv H W (initial_state base style)"
  by (simp add: run_inv_def initial_state_def)

lemma style_transfer_run:
  assumes base: "shape base = [1, img_height, img_width, 3]" "well_shaped base"
    and style: "shape style = [1, img_height, img_width, 3]"
    and fe: "extractor_ok fe img_height img_width"
    and g: "gradient_ok tape_gradient"
  shows "\<exists>st. style_transfer fe tape_gradient img_height img_width base style = Some st
           \<and> optimizer_step st = 4000
           \<and> map fst (saved st) = map fname (filter (\<lambda>i. i mod 100 = 0) [1..<4001])
           \<and> map fst (printed st) = filter (\<lambda>i. i mod 100 = 0) [1..<4001]
           \<and> (\<forall>i. 1 \<le> i \<and> i \<le> 4000 \<and> i mod 100 = 0 \<longrightarrow>
                 (\<exists>st_i img.
                    for_loop fe tape_gradient img_height img_width [1..<i + 1]
                      (initial_state base style) = Some st_i
                  \<and> deprocess_image img_height img_width (combination_image st_i) = Some img
                  \<and> (fname i, img) \<in> set (saved st)))"
proof -
  let ?init = "initial_state base style"
  let ?run = "for_loop fe tape_gradient img_height img_width"
  have inv: "run_inv img_height img_width ?init"
    using base style by (rule initial_state_inv)
  from for_loop_total [where xs = "[1..<4001]", OF fe g inv] obtain st where
    st: "?run [1..<4001] ?init = Some st"
    and steps: "optimizer_step st = optimizer_step ?init + length [1..<4001]"
    and saved: "map fst (saved st) = map fst (saved ?init) @ map fname (filter (\<lambda>i. i mod 100 = 0) [1..<4001])"
    and printed: "map fst (printed st) = map fst (printed ?init) @ filter (\<lambda>i. i mod 100 = 0) [1..<4001]"
    by blast
  have run: "style_transfer fe tape_gradient img_height img_width base style = Some st"
    using st by (simp add: style_transfer_def iterations_def)
  have snap: "\<exists>st_i img. ?run [1..<i + 1] ?init = Some st_i
          \<and> deprocess_image img_height img_width (combination_image st_i) = Some img
          \<and> (fname i, img) \<in> set (saved st)"
    if i: "1 \<le> i" "i \<le> 4000" "i mod 100 = 0" for i
  proof -
    have split1: "[1..<i + 1] = [1..<i] @ [i]"
      using i(1) by simp
    from for_loop_snapshot [where xs = "[1..<i]", OF fe g inv i(3)] obtain st_i img where
      st_i: "?run [1..<i + 1] ?init = Some st_i"
      and img: "deprocess_image img_height img_width (combination_image st_i) = Some img"
      and mem: "(fname i, img) \<in> set (saved st_i)"
      unfolding split1 by blast
    have "[1..<(i + 1) + (4000 - i)] = [1..<i + 1] @ [i + 1..<(i + 1) + (4000 - i)]"
      by (rule upt_add_eq_append) simp
    then have "[1..<4001] = [1..<i + 1] @ [i + 1..<4001]"
      using i(2) by simp
    then have "?run [i + 1..<4001] st_i = Some st"
      using st st_i by (simp add: for_loop_append)
    from for_loop_saved_prefix [OF this] mem have "(fname i, img) \<in> set (saved st)"
      by auto
    with st_i img show ?thesis by blast
  qed
  have budget: "optimizer_step st = 4000"
    using steps by (simp add: initial_state_def)
  have names: "map fst (saved st) = map fname (filter (\<lambda>i. i mod 100 = 0) [1..<4001])"
    using saved by (simp add: initial_state_def)
  have lines: "map fst (printed st) = filter (\<lambda>i. i mod 100 = 0) [1..<4001]"
    using printed by (simp add: initial_state_def)
  have "\<forall>i. 1 \<le> i \<and> i \<le> 4000 \<and> i mod 100 = 0 \<longrightarrow>
          (\<exists>st_i img. ?run [1..<i + 1] ?init = Some st_i
             \<and> deprocess_image img_height img_width (combination_image st_i) = Some img
             \<and> (fname i, img) \<in> set (saved st))"
  proof (intro allI impI)
    fix i :: nat
    assume "1 \<le> i \<and> i \<le> 4000 \<and> i mod 100 = 0"
    then have "1 \<le> i" "i \<le> 4000" "i mod 100 = 0" by simp_all
    then show "\<exists>st_i img. ?run [1..<i + 1] ?init = Some st_i
             \<and> deprocess_image img_height img_width (combination_image st_i) = Some img
             \<and> (fname i, img) \<in> set (saved st)"
      by (rule snap)
  qed
  with run budget names lines show ?thesis
    by (intro exI [of _ st] conjI)
qed

lemma str_nat_nonempty: "str_nat n \<noteq> []"
  by (subst str_nat.simps) simp

lemma digit_char_inj: "a < 10 \<Longrightarrow> b < 10 \<Longrightarrow> char_of (48 + a) = (char_of (48 + b) :: char) \<Longrightarrow> a = (b::nat)"
proof -
  assume a: "a < 10" and b: "b < 10" and eq: "char_of (48 + a) = (char_of (48 + b) :: char)"
  from eq have "of_char (char_of (48 + a) :: char) = (of_char (char_of (48 + b) :: char) :: nat)"
    by simp
  then have "(48 + a) mod 256 = (48 + b) mod 256"
    by (simp only: of_char_of)
  with a b show "a = b" by simp
qed

lemma str_nat_inj: "str_nat n = str_nat m \<Longrightarrow> n = m"
proof (induction n arbitrary: m rule: less_induct)
  case (less n)
  have big: "length (str_nat k) \<ge> 2" if "\<not> k < 10" for k
    using that str_nat_nonempty [of "k div 10"]
    by (subst str_nat.simps) (cases "str_nat (k div 10)"; simp)
  have small: "length (str_nat k) = 1" if "k < 10" for k
    using that by (subst str_nat.simps) simp
  show ?case
  proof (cases "n < 10")
    case True
    show ?thesis
    proof (cases "m < 10")
      case mT: True
      from less.prems True mT have "char_of (48 + n) = (char_of (48 + m) :: char)"
        by (simp add: str_nat.simps [of n] str_nat.simps [of m])
      with True mT show ?thesis by (intro digit_char_inj)
    next
      case False
      with True small [of n] big [of m] less.prems show ?thesis by simp
    qed
  next
    case False
    show ?thesis
    proof (cases "m < 10")
      case True
      with False small [of m] big [of n] less.prems show ?thesis by simp
    next
      case mF: False
      from less.prems False mF have
        "str_nat (n div 10) @ [char_of (48 + n mod 10)] = str_nat (m div 10) @ [char_of (48 + m mod 10)]"
        by (simp add: str_nat.simps [of n] str_nat.simps [of m])
      then have hi: "str_nat (n div 10) = str_nat (m div 10)"
        and lo: "char_of (48 + n mod 10) = (char_of (48 + m mod 10) :: char)"
        by simp_all
      from False have "n div 10 < n" by simp
      from less.IH [OF this hi] have "n div 10 = m div 10" .
      moreover have "n mod 10 = m mod 10"
        using lo by (intro digit_char_inj) simp_all
      ultimately show ?thesis
        by (metis div_mult_mod_eq)
    qed
  qed
qed

lemma fname_inj: "fname i = fname j \<Longrightarrow> i = j"
  by (simp add: fname_def str_nat_inj)

lemma str_nat_example:
  "str_nat 4000 = ''4000'' \<and> fname 100 = ''combination_image_at_iteration_100.png''"
  by code_simp

lemma filter_window:
  assumes "0 < d"
  shows "filter (\<lambda>i. i mod d = 0) [d * n + 1..<d * n + d + 1] = [d * n + d]"
proof -
  have none: "i mod d \<noteq> 0" if "i \<in> set [d * n + 1..<d * n + d]" for i
  proof -
    from that obtain r where r: "i = d * n + r" "0 < r" "r < d"
      by (auto intro: that [of "i - d * n"] simp: less_diff_conv2)
    then show ?thesis by simp
  qed
  have "[d * n + 1..<d * n + d + 1] = [d * n + 1..<d * n + d] @ [d * n + d]"
    using assms by simp
  then have "filter (\<lambda>i. i mod d = 0) [d * n + 1..<d * n + d + 1]
               = filter (\<lambda>i. i mod d = 0) [d * n + 1..<d * n + d] @ [d * n + d]"
    by simp
  also have "filter (\<lambda>i. i mod d = 0) [d * n + 1..<d * n + d] = []"
    using none by (simp only: filter_empty_conv) blast
  finally show ?thesis by simp
qed

lemma filter_multiples:
  assumes "0 < d"
  shows "filter (\<lambda>i. i mod d = 0) [1..<d * n + 1] = map (\<lambda>k. d * k) [1..<n + 1]"
proof (induction n)
  case 0
  show ?case by simp
next
  case (Suc n)
  have "[1..<(d * n + 1) + d] = [1..<d * n + 1] @ [d * n + 1..<(d * n + 1) + d]"
    by (rule upt_add_eq_append) simp
  then have "[1..<d * Suc n + 1] = [1..<d * n + 1] @ [d * n + 1..<d * n + d + 1]"
    by (simp add: algebra_simps)
  then have "filter (\<lambda>i. i mod d = 0) [1..<d * Suc n + 1]
               = map (\<lambda>k. d * k) [1..<n + 1] @ [d * n + d]"
    using Suc filter_window [OF assms, of n] by simp
  then show ?case by simp
qed

lemma checkpoints: "filter (\<lambda>i. i mod 100 = 0) [1..<4001] = map (\<lambda>k. 100 * k) [1..<41]"
  using filter_multiples [of 100 40] by simp


section \<open>Rounding to a floating-point value\<close>

lemma two_pow_powr: "two_pow k = 2 powr (of_int k)"
proof (cases "0 \<le> k")
  case True
  then have "(2::real) powr of_int k = 2 powr real (nat k)" by simp
  also have "\<dots> = 2 ^ nat k" by (rule powr_realpow) simp
  finally show ?thesis using True by (simp add: two_pow_def)
next
  case False
  then have "(2::real) powr of_int k = 2 powr (- real (nat (- k)))" by simp
  also have "\<dots> = inverse (2 powr real (nat (- k)))" by (rule powr_minus)
  also have "2 powr real (nat (- k)) = (2::real) ^ nat (- k)" by (rule powr_realpow) simp
  finally show ?thesis using False by (simp add: two_pow_def divide_inverse)
qed

lemma two_pow_pos [simp]: "0 < two_pow k"
  by (simp add: two_pow_powr)

lemma two_pow_nonneg [simp]: "0 \<le> two_pow k"
  by (simp add: two_pow_powr)

lemma two_pow_le [simp]: "two_pow k \<le> two_pow l \<longleftrightarrow> k \<le> l"
  by (simp add: two_pow_powr)

lemma two_pow_less [simp]: "two_pow k < two_pow l \<longleftrightarrow> k < l"
  by (simp add: two_pow_powr)

lemma two_pow_add: "two_pow k * two_pow l = two_pow (k + l)"
  by (simp add: two_pow_powr powr_add)

lemma two_pow_0 [simp]: "two_pow 0 = 1"
  by (simp add: two_pow_def)

lemma two_pow_half: "two_pow k / 2 = two_pow (k - 1)"
proof -
  have "two_pow (k - 1) * two_pow 1 = two_pow k"
    by (simp add: two_pow_add)
  moreover have "two_pow 1 = 2" by (simp add: two_pow_def)
  ultimately show ?thesis by simp
qed

lemma two_pow_floor_log: "0 < a \<Longrightarrow> two_pow \<lfloor>log 2 a\<rfloor> \<le> a"
proof -
  assume a: "0 < a"
  from floor_log_eq_powr_iff [of a 2 "\<lfloor>log 2 a\<rfloor>"] a
  have "2 powr of_int \<lfloor>log 2 a\<rfloor> \<le> a" by simp
  then show ?thesis by (simp add: two_pow_powr)
qed

lemma floor_log_ge: "two_pow k \<le> a \<Longrightarrow> k \<le> \<lfloor>log 2 a\<rfloor>"
proof -
  assume ka: "two_pow k \<le> a"
  then have a: "0 < a" by (rule less_le_trans [OF two_pow_pos])
  have "of_int k \<le> log 2 a"
    using ka a by (simp add: two_pow_powr le_log_iff)
  then show ?thesis by (simp add: le_floor_iff)
qed

lemma round_half_even_err: "\<bar>of_int (round_half_even z) - z\<bar> \<le> 1 / 2"
proof -
  have "of_int \<lfloor>z\<rfloor> \<le> z" "z < of_int \<lfloor>z\<rfloor> + 1" by linarith+
  then show ?thesis
    by (auto simp: round_half_even_def Let_def)
qed

lemma round_half_even_nonneg: "0 \<le> z \<Longrightarrow> 0 \<le> round_half_even z"
  by (auto simp: round_half_even_def Let_def)

lemma round_half_even_zero_iff: "round_half_even z = 0 \<longleftrightarrow> \<bar>z\<bar> \<le> 1 / 2"
proof
  assume "round_half_even z = 0"
  with round_half_even_err [of z] show "\<bar>z\<bar> \<le> 1 / 2" by simp
next
  assume a: "\<bar>z\<bar> \<le> 1 / 2"
  show "round_half_even z = 0"
  proof (cases "0 \<le> z")
    case True
    with a have "\<lfloor>z\<rfloor> = 0" by (simp add: floor_eq_iff)
    with a True show ?thesis by (simp add: round_half_even_def Let_def)
  next
    case False
    with a have "\<lfloor>z\<rfloor> = - 1" by (simp add: floor_eq_iff)
    with a False show ?thesis by (simp add: round_half_even_def Let_def)
  qed
qed

lemma ulp_pos [simp]: "0 < ulp x"
  by (simp add: ulp_def)

lemma ulp_nonneg [simp]: "0 \<le> ulp x"
  using ulp_pos [of x] by linarith

lemma ulp_neq_0 [simp]: "ulp x \<noteq> 0"
  using ulp_pos [of x] by linarith

lemma ulp_ge: "two_pow (- 149) \<le> ulp x"
proof (cases "\<bar>x\<bar> < two_pow (- 126)")
  case True
  then show ?thesis by (simp add: ulp_def)
next
  case False
  then have "- 126 \<le> \<lfloor>log 2 \<bar>x\<bar>\<rfloor>" by (intro floor_log_ge) simp
  then have "- 149 \<le> \<lfloor>log 2 \<bar>x\<bar>\<rfloor> - 23" by linarith
  then have "two_pow (- 149) \<le> two_pow (\<lfloor>log 2 \<bar>x\<bar>\<rfloor> - 23)" by (simp only: two_pow_le)
  with False show ?thesis by (simp only: ulp_def if_False)
qed

lemma ulp_le:
  assumes "two_pow (- 149) \<le> \<bar>x\<bar>"
  shows "ulp x \<le> \<bar>x\<bar>"
proof (cases "\<bar>x\<bar> < two_pow (- 126)")
  case True
  with assms show ?thesis by (simp add: ulp_def)
next
  case False
  have pos: "0 < \<bar>x\<bar>" using assms by (rule less_le_trans [OF two_pow_pos])
  have "two_pow (\<lfloor>log 2 \<bar>x\<bar>\<rfloor> - 23) \<le> two_pow \<lfloor>log 2 \<bar>x\<bar>\<rfloor>"
    by simp
  also have "\<dots> \<le> \<bar>x\<bar>" using pos by (rule two_pow_floor_log)
  finally show ?thesis using False by (simp add: ulp_def)
qed

lemma ulp_small: "\<bar>x\<bar> < two_pow (- 126) \<Longrightarrow> ulp x = two_pow (- 149)"
  by (simp add: ulp_def)


lemma overflow_threshold_ge: "two_pow 127 \<le> two_pow 128 - two_pow 103"
proof -
  have "two_pow 128 / 2 = two_pow 127" by (simp add: two_pow_half)
  moreover have "two_pow 103 \<le> two_pow 127" by simp
  ultimately show ?thesis by linarith
qed

lemma no_overflow: "\<bar>x\<bar> < two_pow 127 \<Longrightarrow> \<not> two_pow 128 - two_pow 103 \<le> \<bar>x\<bar>"
  using overflow_threshold_ge by linarith

lemma f32_round_not_NaN [simp]: "f32_round x \<noteq> NaN"
  by (simp add: f32_round_def)

lemma f32_round_0 [simp]: "f32_round 0 = Finite 0"
proof -
  have "\<not> two_pow 128 - two_pow 103 \<le> \<bar>0::real\<bar>"
    by (rule no_overflow) simp
  then show ?thesis
    by (simp add: f32_round_def round_half_even_zero_iff [THEN iffD2])
qed

lemma f32_round_err:
  assumes "f32_round x = Finite y"
  shows "\<bar>y - x\<bar> \<le> ulp x / 2"
proof -
  let ?k = "round_half_even (x / ulp x)"
  from assms have y: "y = of_int ?k * ulp x"
    by (auto simp: f32_round_def split: if_splits)
  have "\<bar>of_int ?k - x / ulp x\<bar> * ulp x \<le> 1 / 2 * ulp x"
    by (intro mult_right_mono round_half_even_err) simp
  moreover have "\<bar>of_int ?k - x / ulp x\<bar> * ulp x = \<bar>of_int ?k * ulp x - x\<bar>"
  proof -
    have "\<bar>of_int ?k - x / ulp x\<bar> * ulp x = \<bar>(of_int ?k - x / ulp x) * ulp x\<bar>"
      by (simp add: abs_mult)
    also have "(of_int ?k - x / ulp x) * ulp x = of_int ?k * ulp x - x"
      using ulp_pos [of x] by (simp add: field_simps)
    finally show ?thesis .
  qed
  ultimately show ?thesis by (simp add: y)
qed

lemma f32_round_nng:
  assumes "0 \<le> x"
  shows "nng (f32_round x)"
proof (cases "two_pow 128 - two_pow 103 \<le> \<bar>x\<bar>")
  case True
  moreover have "0 < two_pow 128 - two_pow 103"
    using overflow_threshold_ge two_pow_pos [of 127] by linarith
  ultimately have "0 < x" using assms by linarith
  with True show ?thesis by (simp add: f32_round_def)
next
  case False
  let ?k = "round_half_even (x / ulp x)"
  have k: "0 \<le> ?k"
    using assms by (intro round_half_even_nonneg) simp
  have "of_int ?k * ulp x = 0 \<or> two_pow (- 149) \<le> of_int ?k * ulp x"
  proof (cases "?k = 0")
    case True
    then show ?thesis by simp
  next
    case False
    with k have "1 \<le> ?k" by simp
    then have "(1::real) \<le> of_int ?k" by simp
    then have "1 * ulp x \<le> of_int ?k * ulp x"
      by (intro mult_right_mono) simp_all
    then have "ulp x \<le> of_int ?k * ulp x" by (simp only: mult_1)
    with ulp_ge [of x] have "two_pow (- 149) \<le> of_int ?k * ulp x" by linarith
    then show ?thesis by (rule disjI2)
  qed
  with False show ?thesis by (simp add: f32_round_def)
qed

lemma f32_round_zero_iff: "f32_round x = Finite 0 \<longleftrightarrow> \<bar>x\<bar> \<le> two_pow (- 150)"
proof
  assume z: "f32_round x = Finite 0"
  from f32_round_err [OF z] have half: "\<bar>x\<bar> \<le> ulp x / 2" by simp
  show "\<bar>x\<bar> \<le> two_pow (- 150)"
  proof (cases "\<bar>x\<bar> < two_pow (- 126)")
    case True
    with half show ?thesis by (simp add: ulp_small two_pow_half)
  next
    case False
    then have big: "two_pow (- 126) \<le> \<bar>x\<bar>" by simp
    have "two_pow (- 149) \<le> two_pow (- 126)" by simp
    with big have "two_pow (- 149) \<le> \<bar>x\<bar>" by linarith
    from ulp_le [OF this] half have "\<bar>x\<bar> \<le> 0" by linarith
    with big two_pow_pos [of "- 126"] show ?thesis by linarith
  qed
next
  assume a: "\<bar>x\<bar> \<le> two_pow (- 150)"
  have "two_pow (- 150) < two_pow (- 126)" "two_pow (- 150) < two_pow 127" by simp_all
  with a have small: "\<bar>x\<bar> < two_pow (- 126)" and no: "\<bar>x\<bar> < two_pow 127" by linarith+
  have u: "ulp x = two_pow (- 149)" using small by (rule ulp_small)
  have "two_pow (- 149) / 2 = two_pow (- 150)" by (simp add: two_pow_half)
  with a have "\<bar>x\<bar> \<le> two_pow (- 149) / 2" by simp
  then have "\<bar>x\<bar> / two_pow (- 149) \<le> 1 / 2"
    by (simp add: field_simps)
  then have "\<bar>x / ulp x\<bar> \<le> 1 / 2" by (simp add: u)
  then have "round_half_even (x / ulp x) = 0" by (simp only: round_half_even_zero_iff)
  with no_overflow [OF no] show "f32_round x = Finite 0"
    by (simp add: f32_round_def)
qed

lemma f32_round_lower:
  assumes "two_pow (- 149) \<le> x"
  shows "f32_round x = PosInf \<or> (\<exists>y. f32_round x = Finite y \<and> x / 2 \<le> y)"
proof (cases "f32_round x")
  case (Finite y)
  have ax: "\<bar>x\<bar> = x" using assms two_pow_pos [of "- 149"] by linarith
  from f32_round_err [OF Finite] have "\<bar>y - x\<bar> \<le> ulp x / 2" .
  moreover have "ulp x \<le> x" using ulp_le [of x] assms ax by simp
  ultimately have "x / 2 \<le> y" by linarith
  with Finite show ?thesis by simp
next
  case PosInf
  then show ?thesis by simp
next
  case NegInf
  have "0 < x" using assms two_pow_pos [of "- 149"] by linarith
  with NegInf show ?thesis by (simp add: f32_round_def split: if_splits)
next
  case NaN
  then show ?thesis by simp
qed

lemma f32_round_small:
  assumes "\<bar>x\<bar> \<le> two_pow (- 127)"
  shows "\<exists>y. f32_round x = Finite y \<and> \<bar>y\<bar> \<le> \<bar>x\<bar> + two_pow (- 150)"
proof -
  have "two_pow (- 127) < two_pow (- 126)" "two_pow (- 127) < two_pow 127" by simp_all
  with assms have small: "\<bar>x\<bar> < two_pow (- 126)" and no: "\<bar>x\<bar> < two_pow 127" by linarith+
  from no_overflow [OF no] obtain y where y: "f32_round x = Finite y"
    by (simp add: f32_round_def)
  from f32_round_err [OF y] have "\<bar>y - x\<bar> \<le> two_pow (- 149) / 2"
    by (simp add: ulp_small [OF small])
  then have "\<bar>y - x\<bar> \<le> two_pow (- 150)" by (simp add: two_pow_half)
  then have "\<bar>y\<bar> \<le> \<bar>x\<bar> + two_pow (- 150)" by linarith
  with y show ?thesis by blast
qed

lemma two_pow_neq_0 [simp]: "two_pow k \<noteq> 0"
  using two_pow_pos [of k] by linarith

lemma two_pow_le_1: "k \<le> 0 \<Longrightarrow> two_pow k \<le> 1"
  using two_pow_le [of k 0] by simp


text \<open>Some values, rounded: a tie goes to the even neighbour.\<close>

lemma ulp_1: "ulp 1 = two_pow (- 23)"
proof -
  have "\<not> \<bar>1::real\<bar> < two_pow (- 126)" using two_pow_le_1 [of "- 126"] by simp
  then show ?thesis by (simp add: ulp_def)
qed

lemma two_pow_values: "two_pow (- 23) = 1 / 8388608" "two_pow 24 = 16777216" "two_pow 23 = 8388608"
  by (simp_all add: two_pow_def)

lemma no_overflow_small: "\<bar>x\<bar> \<le> 2 ^ 30 \<Longrightarrow> \<not> two_pow 128 - two_pow 103 \<le> \<bar>x\<bar>"
proof -
  assume a: "\<bar>x\<bar> \<le> 2 ^ 30"
  have "(2::real) ^ 30 = two_pow 30" by (simp add: two_pow_def)
  moreover have "two_pow 30 < two_pow 127" by simp
  ultimately have "\<bar>x\<bar> < two_pow 127" using a by linarith
  then show ?thesis by (rule no_overflow)
qed

lemma f32_round_1: "f32_round 1 = Finite 1"
  using no_overflow_small [of 1]
  by (simp add: f32_round_def ulp_1 two_pow_values round_half_even_def)

lemma ulp_near_1: "1 \<le> x \<Longrightarrow> x < 2 \<Longrightarrow> ulp x = two_pow (- 23)"
proof -
  assume x: "1 \<le> x" "x < 2"
  then have "\<lfloor>log 2 \<bar>x\<bar>\<rfloor> = 0"
    by (simp add: floor_eq_iff log_less_iff)
  moreover have "\<not> \<bar>x\<bar> < two_pow (- 126)" using two_pow_le_1 [of "- 126"] x by simp
  ultimately show ?thesis by (simp add: ulp_def)
qed

lemma f32_round_tie_down: "f32_round (1 + 1 / 16777216) = Finite 1"
  using no_overflow_small [of "1 + 1 / 16777216"]
  by (simp add: f32_round_def ulp_near_1 two_pow_values round_half_even_def Let_def)

lemma f32_round_tie_up: "f32_round (1 + 3 / 16777216) = Finite (1 + 1 / 4194304)"
  using no_overflow_small [of "1 + 3 / 16777216"]
  by (simp add: f32_round_def ulp_near_1 two_pow_values round_half_even_def Let_def)

lemma f32_round_nearest: "f32_round (1 + 1 / 10000000) = Finite (1 + 1 / 8388608)"
  using no_overflow_small [of "1 + 1 / 10000000"]
  by (simp add: f32_round_def ulp_near_1 two_pow_values round_half_even_def Let_def)


section \<open>Floating-point values that are not negative\<close>

lemma f32_round_abs_lower:
  assumes "two_pow (- 149) \<le> \<bar>x\<bar>" and "f32_round x = Finite y"
  shows "\<bar>x\<bar> / 2 \<le> \<bar>y\<bar>"
proof -
  from f32_round_err [OF assms(2)] have "\<bar>y - x\<bar> \<le> ulp x / 2" .
  moreover have "ulp x \<le> \<bar>x\<bar>" using assms(1) by (rule ulp_le)
  ultimately show ?thesis by linarith
qed

lemma f32_round_abs_upper:
  assumes "f32_round x = Finite y"
  shows "\<bar>y\<bar> \<le> 2 * \<bar>x\<bar> + two_pow (- 150)"
proof (cases "two_pow (- 149) \<le> \<bar>x\<bar>")
  case True
  from f32_round_err [OF assms] have "\<bar>y - x\<bar> \<le> ulp x / 2" .
  moreover have "ulp x \<le> \<bar>x\<bar>" using True by (rule ulp_le)
  ultimately show ?thesis using two_pow_pos [of "- 150"] by linarith
next
  case False
  have "two_pow (- 149) < two_pow (- 126)" by simp
  with False have "\<bar>x\<bar> < two_pow (- 126)" by linarith
  from f32_round_err [OF assms] ulp_small [OF this]
  have "\<bar>y - x\<bar> \<le> two_pow (- 149) / 2" by simp
  then have "\<bar>y - x\<bar> \<le> two_pow (- 150)" by (simp add: two_pow_half)
  then show ?thesis by linarith
qed

lemma ge_two_pow_pos: "two_pow k \<le> y \<Longrightarrow> 0 < y"
  by (rule less_le_trans [OF two_pow_pos])

lemma nng_cases [consumes 1, case_names Zero Pos Inf]:
  assumes "nng v"
  obtains "v = Finite 0"
  | y where "v = Finite y" "two_pow (- 149) \<le> y" "0 < y"
  | "v = PosInf"
proof (cases v)
  case (Finite y)
  with assms have "y = 0 \<or> two_pow (- 149) \<le> y" by simp
  then show ?thesis
  proof
    assume "y = 0"
    with Finite that(1) show ?thesis by simp
  next
    assume "two_pow (- 149) \<le> y"
    with Finite that(2) ge_two_pow_pos show ?thesis by blast
  qed
qed (use assms that in simp_all)


lemma nng_le: "nng v \<Longrightarrow> f32_le (Finite 0) v"
  by (cases v rule: nng_cases) simp_all

lemma nng_less: "nng v \<Longrightarrow> v \<noteq> Finite 0 \<Longrightarrow> f32_less (Finite 0) v"
  by (cases v rule: nng_cases) simp_all

lemma nng_nonneg: "nng (Finite y) \<Longrightarrow> 0 \<le> y"
  by (cases "Finite y" rule: nng_cases) simp_all

lemma fadd_nng: "nng a \<Longrightarrow> nng b \<Longrightarrow> nng (fadd a b)"
proof (cases a; cases b)
  fix x y assume "nng a" "nng b" "a = Finite x" "b = Finite y"
  then have "0 \<le> x + y" using nng_nonneg [of x] nng_nonneg [of y] by simp
  then show "nng (fadd a b)"
    using \<open>a = Finite x\<close> \<open>b = Finite y\<close> by (simp add: f32_round_nng)
qed simp_all

lemma fadd_nng_zero_iff:
  assumes "nng a" and "nng b"
  shows "fadd a b = Finite 0 \<longleftrightarrow> a = Finite 0 \<and> b = Finite 0"
proof (cases a; cases b)
  fix x y assume ab: "a = Finite x" "b = Finite y"
  with assms have x: "x = 0 \<or> two_pow (- 149) \<le> x" and y: "y = 0 \<or> two_pow (- 149) \<le> y"
    by simp_all
  have lt: "two_pow (- 150) < two_pow (- 149)" by simp
  have pos: "0 < two_pow (- 149)" by simp
  have "\<bar>x + y\<bar> \<le> two_pow (- 150) \<longleftrightarrow> x = 0 \<and> y = 0"
  proof
    assume "\<bar>x + y\<bar> \<le> two_pow (- 150)"
    with x y lt pos have "x \<le> 0" "y \<le> 0" by linarith+
    with x y pos show "x = 0 \<and> y = 0" by linarith
  next
    assume "x = 0 \<and> y = 0"
    then show "\<bar>x + y\<bar> \<le> two_pow (- 150)" by simp
  qed
  then show ?thesis
    using ab by (simp add: f32_round_zero_iff)
qed (use assms in simp_all)

lemma foldl_fadd_nng:
  "nng acc \<Longrightarrow> (\<forall>v \<in> set vs. nng v) \<Longrightarrow> nng (foldl fadd acc vs)"
  by (induction vs arbitrary: acc) (simp_all add: fadd_nng)

lemma foldl_fadd_zero_iff:
  "nng acc \<Longrightarrow> (\<forall>v \<in> set vs. nng v) \<Longrightarrow>
     foldl fadd acc vs = Finite 0 \<longleftrightarrow> acc = Finite 0 \<and> (\<forall>v \<in> set vs. v = Finite 0)"
proof (induction vs arbitrary: acc)
  case Nil
  then show ?case by simp
next
  case (Cons u us)
  from Cons.prems have "nng (fadd acc u)" by (simp add: fadd_nng)
  with Cons.IH [of "fadd acc u"] Cons.prems
  have "foldl fadd (fadd acc u) us = Finite 0
          \<longleftrightarrow> fadd acc u = Finite 0 \<and> (\<forall>v \<in> set us. v = Finite 0)"
    by simp
  also have "fadd acc u = Finite 0 \<longleftrightarrow> acc = Finite 0 \<and> u = Finite 0"
    using Cons.prems by (intro fadd_nng_zero_iff) simp_all
  finally show ?case by auto
qed

lemma fsum_nng: "(\<forall>v \<in> set vs. nng v) \<Longrightarrow> nng (fsum vs)"
  unfolding fsum_def by (rule foldl_fadd_nng) simp_all

lemma fsum_zero_iff:
  "(\<forall>v \<in> set vs. nng v) \<Longrightarrow> fsum vs = Finite 0 \<longleftrightarrow> (\<forall>v \<in> set vs. v = Finite 0)"
  unfolding fsum_def by (subst foldl_fadd_zero_iff) simp_all





lemma fmul_self_nng: "v \<noteq> NaN \<Longrightarrow> nng (fmul v v)"
  by (cases v) (simp_all add: f32_round_nng)


lemma fpow_nng: "nng v \<Longrightarrow> nng (fpow v p)"
  by (cases v rule: nng_cases) (simp_all add: f32_round_nng)




section \<open>Squared differences in floating-point arithmetic\<close>

lemma two_pow_double: "2 * two_pow k = two_pow (k + 1)"
proof -
  have "two_pow 1 = 2" by (simp add: two_pow_def)
  with two_pow_add [of 1 k] show ?thesis by (simp add: add.commute)
qed

lemma is_finite_obtain:
  assumes "is_finite v"
  obtains r where "v = Finite r"
  using assms by (cases v) simp_all

lemma f32_le_Finite_cases [consumes 1, case_names Inf Finite]:
  assumes "f32_le (Finite c) v"
  obtains "v = PosInf" | z where "v = Finite z" "c \<le> z"
  using assms by (cases v) simp_all

lemma f32_round_ge:
  assumes "two_pow (- 149) \<le> x"
  shows "f32_le (Finite (x / 2)) (f32_round x)"
  using f32_round_lower [OF assms] by auto

lemma f32_ge_nonzero: "f32_le (Finite c) v \<Longrightarrow> 0 < c \<Longrightarrow> v \<noteq> Finite 0"
  by (cases v) auto

lemma fsub_Finite [simp]: "fsub (Finite x) (Finite y) = f32_round (x - y)"
  by (simp add: fsub_def)

lemma sq_diff_nng:
  assumes "is_finite a" and "is_finite b"
  shows "nng (fmul (fsub a b) (fsub a b))"
proof -
  from assms obtain x y where "a = Finite x" "b = Finite y"
    by (elim is_finite_obtain)
  then show ?thesis by (simp add: fmul_self_nng)
qed

lemma sq_diff_tiny:
  assumes "is_finite a" and "is_finite b"
    and small: "\<bar>the_real a - the_real b\<bar> \<le> two_pow (- 80)"
  shows "fmul (fsub a b) (fsub a b) = Finite 0"
proof -
  from assms obtain x y where ab: "a = Finite x" "b = Finite y"
    by (elim is_finite_obtain)
  with small have d: "\<bar>x - y\<bar> \<le> two_pow (- 80)" by simp
  have "two_pow (- 80) < two_pow 127" by simp
  with d have "\<bar>x - y\<bar> < two_pow 127" by linarith
  from no_overflow [OF this] obtain z where z: "f32_round (x - y) = Finite z"
    by (simp add: f32_round_def)
  define D where "D = \<bar>x - y\<bar>"
  from f32_round_abs_upper [OF z] d have "\<bar>z\<bar> \<le> 2 * D + two_pow (- 150)" "D \<le> two_pow (- 80)"
    by (simp_all add: D_def)
  then have "\<bar>z\<bar> \<le> 2 * two_pow (- 80) + two_pow (- 150)"
    by linarith
  moreover have "2 * two_pow (- 80) = two_pow (- 79)" by (simp add: two_pow_double)
  moreover have "two_pow (- 150) \<le> two_pow (- 79)" by simp
  moreover have "2 * two_pow (- 79) = two_pow (- 78)" by (simp add: two_pow_double)
  ultimately have zb: "\<bar>z\<bar> \<le> two_pow (- 78)" by linarith
  have "\<bar>z * z\<bar> = \<bar>z\<bar> * \<bar>z\<bar>" by (simp add: abs_mult)
  also have "\<dots> \<le> two_pow (- 78) * two_pow (- 78)"
    using zb by (intro mult_mono) simp_all
  also have "\<dots> = two_pow (- 156)" by (simp add: two_pow_add)
  also have "\<dots> \<le> two_pow (- 150)" by simp
  finally have "f32_round (z * z) = Finite 0" by (simp only: f32_round_zero_iff)
  with ab z show ?thesis by simp
qed

lemma sq_diff_big:
  assumes "is_finite a" and "is_finite b"
    and big: "two_pow (- 40) \<le> \<bar>the_real a - the_real b\<bar>"
  shows "f32_le (Finite (two_pow (- 83))) (fmul (fsub a b) (fsub a b))"
proof -
  from assms obtain x y where ab: "a = Finite x" "b = Finite y"
    by (elim is_finite_obtain)
  with big have d: "two_pow (- 40) \<le> \<bar>x - y\<bar>" by simp
  show ?thesis
  proof (cases "f32_round (x - y)")
    case (Finite z)
    have "two_pow (- 149) \<le> two_pow (- 40)" by simp
    with d have lo: "two_pow (- 149) \<le> \<bar>x - y\<bar>" by linarith
    define D where "D = \<bar>x - y\<bar>"
    from f32_round_abs_lower [OF lo Finite] d have "D / 2 \<le> \<bar>z\<bar>" "two_pow (- 40) \<le> D"
      by (simp_all add: D_def)
    then have "two_pow (- 40) / 2 \<le> \<bar>z\<bar>"
      by linarith
    then have zb: "two_pow (- 41) \<le> \<bar>z\<bar>" by (simp add: two_pow_half)
    have "two_pow (- 82) = two_pow (- 41) * two_pow (- 41)" by (simp add: two_pow_add)
    also have "\<dots> \<le> \<bar>z\<bar> * \<bar>z\<bar>"
      using zb by (intro mult_mono) simp_all
    also have "\<dots> = z * z" by simp
    finally have zz: "two_pow (- 82) \<le> z * z" .
    have "two_pow (- 149) \<le> two_pow (- 82)" by simp
    with zz have "two_pow (- 149) \<le> z * z" by linarith
    from f32_round_ge [OF this] have "f32_le (Finite (z * z / 2)) (f32_round (z * z))" .
    moreover have "two_pow (- 83) \<le> z * z / 2"
      using zz two_pow_half [of "- 82"] by simp
    ultimately have "f32_le (Finite (two_pow (- 83))) (f32_round (z * z))"
      by (cases "f32_round (z * z)") simp_all
    with ab Finite show ?thesis by simp
  qed (use ab in simp_all)
qed





section \<open>The total variation loss in floating-point arithmetic\<close>

lemma in_set_grid2: "v \<in> set (grid2 n m f) \<longleftrightarrow> (\<exists>i<n. \<exists>j<m. f i j = v)"
  unfolding grid2_def by fastforce

lemma in_set_grid3: "v \<in> set (grid3 n m p f) \<longleftrightarrow> (\<exists>i<n. \<exists>j<m. \<exists>k<p. f i j k = v)"
  unfolding grid3_def by (fastforce simp: in_set_grid2)

lemma in_set_grid4:
  "v \<in> set (grid4 n m p q f) \<longleftrightarrow> (\<exists>i<n. \<exists>j<m. \<exists>k<p. \<exists>l<q. f i j k l = v)"
  unfolding grid4_def by (fastforce simp: in_set_grid3)

lemma index_bound: "i < a \<Longrightarrow> j < b \<Longrightarrow> i * b + j < a * (b::nat)"
proof -
  assume i: "i < a" and j: "j < b"
  have "i * b + j < i * b + b" using j by simp
  also have "\<dots> = Suc i * b" by simp
  also have "\<dots> \<le> a * b" using i by (intro mult_le_mono1) simp
  finally show ?thesis .
qed

lemma at4_in_set:
  assumes sh: "shape x = [N, H, W, C]" and ws: "well_shaped x"
    and b: "n < N" "h < H" "w < W" "c < C"
  shows "at4 x n h w c \<in> set (elems x)"
proof -
  have "n * H + h < N * H" using b(1,2) by (rule index_bound)
  then have "(n * H + h) * W + w < N * H * W" using b(3) by (rule index_bound)
  then have "((n * H + h) * W + w) * C + c < N * H * W * C" using b(4) by (rule index_bound)
  moreover have "length (elems x) = N * H * W * C"
    using sh ws by (simp add: well_shaped_def mult.assoc)
  ultimately show ?thesis
    using sh by (simp add: at4_def)
qed

lemma f32_le_mono: "f32_le (Finite c) v \<Longrightarrow> c' \<le> c \<Longrightarrow> f32_le (Finite c') v"
  by (cases v) simp_all

lemma fadd_ge_left:
  assumes a: "f32_le (Finite c) a" and b: "nng b" and c: "two_pow (- 149) \<le> c"
  shows "f32_le (Finite (c / 2)) (fadd a b)"
  using a
proof (cases rule: f32_le_Finite_cases)
  case Inf
  with b show ?thesis by (cases b rule: nng_cases) simp_all
next
  case (Finite z)
  from b show ?thesis
  proof (cases rule: nng_cases)
    case Zero
    have "two_pow (- 149) \<le> z + 0" using c Finite(2) by simp
    from f32_round_ge [OF this] have "f32_le (Finite ((z + 0) / 2)) (f32_round (z + 0))" .
    then have "f32_le (Finite (c / 2)) (f32_round (z + 0))"
      by (rule f32_le_mono) (use Finite(2) in simp)
    with Finite(1) Zero show ?thesis by simp
  next
    case (Pos y)
    have "two_pow (- 149) \<le> z + y" using c Finite(2) Pos(3) by linarith
    from f32_round_ge [OF this] have "f32_le (Finite ((z + y) / 2)) (f32_round (z + y))" .
    then have "f32_le (Finite (c / 2)) (f32_round (z + y))"
      by (rule f32_le_mono) (use Finite(2) Pos(3) in simp)
    with Finite(1) Pos(1) show ?thesis by simp
  next
    case Inf
    with Finite(1) show ?thesis by simp
  qed
qed

lemma fadd_commute: "fadd a b = fadd b a"
  by (cases a; cases b) (simp_all add: add.commute)

lemma fadd_ge_right:
  "f32_le (Finite c) b \<Longrightarrow> nng a \<Longrightarrow> two_pow (- 149) \<le> c \<Longrightarrow> f32_le (Finite (c / 2)) (fadd a b)"
  using fadd_ge_left [of c b a] by (simp add: fadd_commute)

lemma fpow_nonzero:
  assumes a: "f32_le (Finite c) a" and c: "0 < c" and p: "0 \<le> p"
    and lo: "two_pow (- 149) \<le> c powr p"
  shows "fpow a p \<noteq> Finite 0"
  using a
proof (cases rule: f32_le_Finite_cases)
  case Inf
  then show ?thesis by simp
next
  case (Finite z)
  have "c powr p \<le> z powr p"
    using c Finite(2) p by (intro powr_mono2) simp_all
  with lo have zp: "two_pow (- 149) \<le> z powr p" by linarith
  have "f32_le (Finite (z powr p / 2)) (f32_round (z powr p))"
    using zp by (rule f32_round_ge)
  moreover have "0 < z powr p / 2"
    using ge_two_pow_pos [OF zp] by simp
  ultimately have "f32_round (z powr p) \<noteq> Finite 0" by (rule f32_ge_nonzero)
  moreover have "\<not> z < 0" using c Finite(2) by linarith
  ultimately show ?thesis using Finite(1) by simp
qed

lemma two_pow_84_powr: "two_pow (- 84) powr (5 / 4) = two_pow (- 105)"
proof -
  have "two_pow (- 84) powr (5 / 4) = (2 powr (- 84)) powr (5 / 4)"
    by (simp add: two_pow_powr)
  also have "\<dots> = 2 powr (- 84 * (5 / 4))" by (rule powr_powr)
  also have "\<dots> = 2 powr (- 105)" by simp
  also have "\<dots> = two_pow (- 105)" by (simp add: two_pow_powr)
  finally show ?thesis .
qed

lemma tv_term32_nng:
  assumes "is_finite (at4 x n h w c)" and "is_finite (at4 x n (Suc h) w c)"
    and "is_finite (at4 x n h (Suc w) c)"
  shows "nng (tv_term32 x n h w c)"
  unfolding tv_term32_def using assms by (intro fpow_nng fadd_nng sq_diff_nng)

lemma tv_term32_tiny:
  assumes "is_finite (at4 x n h w c)" and "is_finite (at4 x n (Suc h) w c)"
    and "is_finite (at4 x n h (Suc w) c)"
    and "\<bar>the_real (at4 x n h w c) - the_real (at4 x n (Suc h) w c)\<bar> \<le> two_pow (- 80)"
    and "\<bar>the_real (at4 x n h w c) - the_real (at4 x n h (Suc w) c)\<bar> \<le> two_pow (- 80)"
  shows "tv_term32 x n h w c = Finite 0"
  unfolding tv_term32_def using assms by (simp add: sq_diff_tiny)

lemma tv_term32_big:
  assumes f: "is_finite (at4 x n h w c)" "is_finite (at4 x n (Suc h) w c)"
      "is_finite (at4 x n h (Suc w) c)"
    and big: "two_pow (- 40) \<le> \<bar>the_real (at4 x n h w c) - the_real (at4 x n (Suc h) w c)\<bar>
            \<or> two_pow (- 40) \<le> \<bar>the_real (at4 x n h w c) - the_real (at4 x n h (Suc w) c)\<bar>"
  shows "tv_term32 x n h w c \<noteq> Finite 0"
proof -
  let ?a = "fmul (fsub (at4 x n h w c) (at4 x n (Suc h) w c))
                 (fsub (at4 x n h w c) (at4 x n (Suc h) w c))"
  let ?b = "fmul (fsub (at4 x n h w c) (at4 x n h (Suc w) c))
                 (fsub (at4 x n h w c) (at4 x n h (Suc w) c))"
  have na: "nng ?a" and nb: "nng ?b" using f by (simp_all add: sq_diff_nng)
  have lo: "two_pow (- 149) \<le> two_pow (- 83)" by simp
  have half: "two_pow (- 83) / 2 = two_pow (- 84)" by (simp add: two_pow_half)
  from big have "f32_le (Finite (two_pow (- 83) / 2)) (fadd ?a ?b)"
  proof
    assume "two_pow (- 40) \<le> \<bar>the_real (at4 x n h w c) - the_real (at4 x n (Suc h) w c)\<bar>"
    with f have "f32_le (Finite (two_pow (- 83))) ?a" by (intro sq_diff_big)
    then show ?thesis using nb lo by (rule fadd_ge_left)
  next
    assume "two_pow (- 40) \<le> \<bar>the_real (at4 x n h w c) - the_real (at4 x n h (Suc w) c)\<bar>"
    with f have "f32_le (Finite (two_pow (- 83))) ?b" by (intro sq_diff_big)
    then show ?thesis using na lo by (rule fadd_ge_right)
  qed
  then have "f32_le (Finite (two_pow (- 84))) (fadd ?a ?b)" by (simp only: half)
  then have "fpow (fadd ?a ?b) (5 / 4) \<noteq> Finite 0"
    by (rule fpow_nonzero) (simp_all add: two_pow_84_powr)
  then show ?thesis unfolding tv_term32_def .
qed

lemma total_variation_loss32_value:
  assumes sh: "shape x = [N, H, W, C]"
  shows "total_variation_loss32 H W x = Some (fsum (grid4 N (H - 1) (W - 1) C (tv_term32 x)))"
proof -
  let ?x00 = "\<lparr>shape = [N, H - 1, W - 1, C],
               elems = grid4 N (H - 1) (W - 1) C (\<lambda>n h w c. at4 x n h w c)\<rparr>"
  let ?x10 = "\<lparr>shape = [N, H - 1, W - 1, C],
               elems = grid4 N (H - 1) (W - 1) C (\<lambda>n h w c. at4 x n (Suc h) w c)\<rparr>"
  let ?x01 = "\<lparr>shape = [N, H - 1, W - 1, C],
               elems = grid4 N (H - 1) (W - 1) C (\<lambda>n h w c. at4 x n h (Suc w) c)\<rparr>"
  have hs: "py_stop (int H - 1) H = H - 1" and ws: "py_stop (int W - 1) W = W - 1"
    by (auto simp: py_stop_def)
  have x00: "slice_hw x 0 (H - 1) 0 (W - 1) = Some ?x00"
    using sh by (simp add: slice_hw_def)
  have "grid4 N (H - py_start1 H) (W - 1) C (\<lambda>n h w c. at4 x n (py_start1 H + h) (0 + w) c)
          = grid4 N (H - 1) (W - 1) C (\<lambda>n h w c. at4 x n (Suc h) w c)"
    by (cases H) (auto simp: py_start1_def intro!: grid4_cong)
  moreover have "H - py_start1 H = H - 1"
    by (simp add: py_start1_def min_def)
  ultimately have x10: "slice_hw x (py_start1 H) H 0 (W - 1) = Some ?x10"
    using sh by (simp add: slice_hw_def)
  have "grid4 N (H - 1) (W - py_start1 W) C (\<lambda>n h w c. at4 x n (0 + h) (py_start1 W + w) c)
          = grid4 N (H - 1) (W - 1) C (\<lambda>n h w c. at4 x n h (Suc w) c)"
    by (cases W) (auto simp: py_start1_def intro!: grid4_cong)
  moreover have "W - py_start1 W = W - 1"
    by (simp add: py_start1_def min_def)
  ultimately have x01: "slice_hw x 0 (H - 1) (py_start1 W) W = Some ?x01"
    using sh by (simp add: slice_hw_def)
  show ?thesis
    using sh
    by (simp add: total_variation_loss32_def Let_def hs ws x00 x10 x01 tf_subtract32_def
        tf_add32_def elementwise_def tf_square32_def tf_pow32_def tf_reduce_sum32_def
        grid4_map2 map_grid4 tv_term32_def [abs_def] del: One_nat_def)
qed

lemma tv_sum32:
  assumes sh: "shape x = [N, H, W, C]" and ws: "well_shaped x"
    and fin: "\<forall>v \<in> set (elems x). is_finite v"
  shows "nng (fsum (grid4 N (H - 1) (W - 1) C (tv_term32 x)))"
    and "(\<forall>n<N. \<forall>h<H - 1. \<forall>w<W - 1. \<forall>c<C.
            \<bar>the_real (at4 x n h w c) - the_real (at4 x n (Suc h) w c)\<bar> \<le> two_pow (- 80)
          \<and> \<bar>the_real (at4 x n h w c) - the_real (at4 x n h (Suc w) c)\<bar> \<le> two_pow (- 80))
         \<Longrightarrow> fsum (grid4 N (H - 1) (W - 1) C (tv_term32 x)) = Finite 0"
    and "(\<exists>n<N. \<exists>h<H - 1. \<exists>w<W - 1. \<exists>c<C.
            two_pow (- 40) \<le> \<bar>the_real (at4 x n h w c) - the_real (at4 x n (Suc h) w c)\<bar>
          \<or> two_pow (- 40) \<le> \<bar>the_real (at4 x n h w c) - the_real (at4 x n h (Suc w) c)\<bar>)
         \<Longrightarrow> fsum (grid4 N (H - 1) (W - 1) C (tv_term32 x)) \<noteq> Finite 0"
proof -
  let ?ts = "grid4 N (H - 1) (W - 1) C (tv_term32 x)"
  have f: "is_finite (at4 x n h w c)" "is_finite (at4 x n (Suc h) w c)"
      "is_finite (at4 x n h (Suc w) c)"
    if "n < N" "h < H - 1" "w < W - 1" "c < C" for n h w c
  proof -
    from that have "h < H" "Suc h < H" "w < W" "Suc w < W" by simp_all
    with that(1,4) fin at4_in_set [OF sh ws]
    show "is_finite (at4 x n h w c)" "is_finite (at4 x n (Suc h) w c)"
      "is_finite (at4 x n h (Suc w) c)" by blast+
  qed
  have nn: "\<forall>v \<in> set ?ts. nng v"
  proof
    fix v assume "v \<in> set ?ts"
    then obtain n h w c where b: "n < N" "h < H - 1" "w < W - 1" "c < C"
      and v: "v = tv_term32 x n h w c"
      unfolding in_set_grid4 by blast
    show "nng v" unfolding v using f [OF b] by (rule tv_term32_nng)
  qed
  then show "nng (fsum ?ts)" by (rule fsum_nng)
  {
    assume "\<forall>n<N. \<forall>h<H - 1. \<forall>w<W - 1. \<forall>c<C.
            \<bar>the_real (at4 x n h w c) - the_real (at4 x n (Suc h) w c)\<bar> \<le> two_pow (- 80)
          \<and> \<bar>the_real (at4 x n h w c) - the_real (at4 x n h (Suc w) c)\<bar> \<le> two_pow (- 80)"
    then have tiny: "\<bar>the_real (at4 x n h w c) - the_real (at4 x n (Suc h) w c)\<bar> \<le> two_pow (- 80)"
        "\<bar>the_real (at4 x n h w c) - the_real (at4 x n h (Suc w) c)\<bar> \<le> two_pow (- 80)"
      if "n < N" "h < H - 1" "w < W - 1" "c < C" for n h w c
      using that by blast+
    have "\<forall>v \<in> set ?ts. v = Finite 0"
    proof
      fix v assume "v \<in> set ?ts"
      then obtain n h w c where b: "n < N" "h < H - 1" "w < W - 1" "c < C"
        and v: "v = tv_term32 x n h w c"
        unfolding in_set_grid4 by blast
      show "v = Finite 0" unfolding v using f [OF b] tiny [OF b] by (rule tv_term32_tiny)
    qed
    then show "fsum ?ts = Finite 0"
      using fsum_zero_iff [OF nn] by simp
  }
  {
    assume "\<exists>n<N. \<exists>h<H - 1. \<exists>w<W - 1. \<exists>c<C.
            two_pow (- 40) \<le> \<bar>the_real (at4 x n h w c) - the_real (at4 x n (Suc h) w c)\<bar>
          \<or> two_pow (- 40) \<le> \<bar>the_real (at4 x n h w c) - the_real (at4 x n h (Suc w) c)\<bar>"
    then obtain n h w c where b: "n < N" "h < H - 1" "w < W - 1" "c < C"
      and big: "two_pow (- 40) \<le> \<bar>the_real (at4 x n h w c) - the_real (at4 x n (Suc h) w c)\<bar>
          \<or> two_pow (- 40) \<le> \<bar>the_real (at4 x n h w c) - the_real (at4 x n h (Suc w) c)\<bar>"
      by blast
    have "tv_term32 x n h w c \<noteq> Finite 0"
      using f [OF b] big by (rule tv_term32_big)
    moreover have "tv_term32 x n h w c \<in> set ?ts"
      unfolding in_set_grid4 using b by blast
    ultimately show "fsum ?ts \<noteq> Finite 0"
      using fsum_zero_iff [OF nn] by blast
  }
qed


section \<open>The sign of the losses in floating-point arithmetic\<close>


















lemma f32_round_weight:
  assumes "0 \<le> w" and "w \<le> 1"
  shows "\<exists>y. f32_round w = Finite y"
proof -
  have "1 < two_pow 127" using two_pow_less [of 0 127] by simp
  with assms have "\<bar>w\<bar> < two_pow 127" by linarith
  from no_overflow [OF this] show ?thesis by (simp add: f32_round_def)
qed

lemma fmul_weight_0:
  assumes "0 \<le> w" and "w \<le> 1"
  shows "fmul (f32_round w) (Finite 0) = Finite 0"
  using f32_round_weight [OF assms] by auto

lemma fadd_NaN_right [simp]: "fadd a NaN = NaN"
  by (cases a) simp_all

lemma fmul_NaN_right [simp]: "fmul a NaN = NaN"
  by (cases a) simp_all




section \<open>The Gram matrix is symmetric\<close>

text \<open>
  C7. For every feature tensor (height, width, at least one channel) \<open>gram_matrix\<close> returns
  a square matrix that equals its own transpose.
\<close>

theorem gram_matrix_symmetric:
  assumes "shape x = [H, W, C]" and "0 < C"
  shows "\<exists>g. gram_matrix x = Some g \<and> shape g = [C, C] \<and> tf_transpose g = Some g
           \<and> (\<forall>i<C. \<forall>j<C. at2 g i j = at2 g j i)"
proof -
  let ?g = "\<lparr>shape = [C, C], elems = grid2 C C (gram_entry x)\<rparr>"
  have g: "gram_matrix x = Some ?g"
    using assms by (rule gram_matrix_value)
  have at: "at2 ?g i j = gram_entry x i j" if "i < C" "j < C" for i j
    using that by (simp add: nth_grid2_at2)
  have sym: "at2 ?g i j = at2 ?g j i" if "i < C" "j < C" for i j
    using that by (simp add: at gram_entry_commute)
  have "grid2 C C (\<lambda>i j. at2 ?g j i) = grid2 C C (gram_entry x)"
    by (intro grid2_cong) (simp add: at gram_entry_commute)
  then have "tf_transpose ?g = Some ?g"
    by (simp add: tf_transpose_def)
  with g sym show ?thesis by auto
qed

theorem gram_matrix_symmetric_witness:
  "\<exists>g. gram_matrix \<lparr>shape = [1, 2, 2], elems = [1, 2, 3, 4]\<rparr> = Some g
         \<and> shape g = [2, 2] \<and> tf_transpose g = Some g"
  using gram_matrix_symmetric [of "\<lparr>shape = [1, 2, 2], elems = [1, 2, 3, 4]\<rparr>" 1 2 2]
  by auto


section \<open>The normaliser of the style loss\<close>

text \<open>
  The style loss of a layer divides by \<open>4 * channels\<^sup>2 * size\<^sup>2\<close> with \<open>channels = 3\<close> and
  \<open>size = img_height * img_width\<close>, the constants of the picture. For activations with two
  channels at one position, and a picture of 400 by 600, it differs from the quotient built
  from the channels and positions of the activations.
\<close>

theorem style_loss_normaliser_counterexample:
  "style_loss 400 600 \<lparr>shape = [1, 1, 2], elems = [1, 0]\<rparr> \<lparr>shape = [1, 1, 2], elems = [0, 0]\<rparr>
     = Some (1 / 2073600000000)
   \<and> style_loss_spec \<lparr>shape = [1, 1, 2], elems = [1, 0]\<rparr> \<lparr>shape = [1, 1, 2], elems = [0, 0]\<rparr>
     = 1 / 16"
  by (simp add: style_loss_value [of _ 1 1 2 _ 1 1] style_loss_spec_def gram_entry_def at3_def
      upt_0_2)

text \<open>
  C1, as the code has it. The style loss of one layer is the sum over all pairs of
  channels of the squared differences of the two Gram matrices, divided by
  \<open>4 * 3\<^sup>2 * (img_height * img_width)\<^sup>2\<close>; and whenever the combined loss returns, its style
  term is \<open>style_weight\<close> times the average of the style losses of the five layers.
\<close>

theorem style_loss_normalised_by_image_constants:
  "(shape s = [h, w, C] \<and> shape c = [h, w, C] \<and> 0 < C \<longrightarrow>
      style_loss img_height img_width s c =
        Some ((\<Sum>i\<leftarrow>[0..<C]. \<Sum>j\<leftarrow>[0..<C]. (gram_entry s i j - gram_entry c i j)\<^sup>2)
              / (4 * 3\<^sup>2 * (real img_height * real img_width)\<^sup>2)))
   \<and> (compute_loss fe img_height img_width comb base style = Some L \<longrightarrow>
        (\<exists>inp lf bf cf cl vs tv.
           tf_concat0 [base, style, comb] = Some inp
         \<and> fe inp content_layer_name = Some lf
         \<and> select_batch lf 0 = Some bf \<and> select_batch lf 2 = Some cf
         \<and> content_loss bf cf = Some cl
         \<and> map (layer_style_loss (fe inp) img_height img_width) style_layer_names = map Some vs
         \<and> total_variation_loss img_height img_width comb = Some tv
         \<and> L = content_weight * cl
               + style_weight * (sum_list vs / real (length style_layer_names))
               + total_variation_weight * tv))"
  using style_loss_value [of s h w C c h w img_height img_width]
    compute_loss_parts [of fe img_height img_width comb base style L]
  by blast

theorem style_loss_normalised_by_image_constants_witness:
  "style_loss 400 600 \<lparr>shape = [1, 1, 2], elems = [1, 0]\<rparr> \<lparr>shape = [1, 1, 2], elems = [0, 0]\<rparr>
     = Some (1 / (4 * 3\<^sup>2 * (400 * 600)\<^sup>2))
   \<and> (\<exists>L vs. compute_loss (\<lambda>x name. Some x) 1 1
                 \<lparr>shape = [1, 1, 1, 3], elems = [1, 2, 3]\<rparr>
                 \<lparr>shape = [1, 1, 1, 3], elems = [1, 2, 3]\<rparr>
                 \<lparr>shape = [1, 1, 1, 3], elems = [3, 2, 1]\<rparr> = Some L
         \<and> length vs = 5
         \<and> L = content_weight * 0 + style_weight * (sum_list vs / 5) + total_variation_weight * 0)"
proof -
  let ?x = "\<lparr>shape = [1, 1, 1, 3], elems = [1, 2, 3]\<rparr>"
  let ?y = "\<lparr>shape = [1, 1, 1, 3], elems = [3, 2, 1]\<rparr>"
  let ?fe = "\<lambda>(x::tensor) (name::string). Some x"
  let ?s = "\<lparr>shape = [1, 1, 2], elems = [1, 0]\<rparr>"
  let ?c = "\<lparr>shape = [1, 1, 2], elems = [0, 0]\<rparr>"
  have "\<exists>L. compute_loss ?fe 1 1 ?x ?x ?y = Some L"
    by (rule compute_loss_total) (simp_all add: extractor_ok_def layers_ok_def)
  then obtain L where L: "compute_loss ?fe 1 1 ?x ?x ?y = Some L" ..
  from style_loss_normalised_by_image_constants [of ?s 1 1 2 ?c 400 600]
  have first: "style_loss 400 600 ?s ?c = Some (1 / (4 * 3\<^sup>2 * (400 * 600)\<^sup>2))"
    by (simp add: gram_entry_def at3_def upt_0_2)
  from style_loss_normalised_by_image_constants [of _ _ _ _ _ 1 1 ?fe ?x ?x ?y L] L
  obtain inp lf bf cf cl vs tv where
    parts: "tf_concat0 [?x, ?y, ?x] = Some inp" "?fe inp content_layer_name = Some lf"
      "select_batch lf 0 = Some bf" "select_batch lf 2 = Some cf" "content_loss bf cf = Some cl"
      "map (layer_style_loss (?fe inp) 1 1) style_layer_names = map Some vs"
      "total_variation_loss 1 1 ?x = Some tv"
      "L = content_weight * cl + style_weight * (sum_list vs / real (length style_layer_names))
             + total_variation_weight * tv"
    by blast
  have len: "length vs = 5"
    using arg_cong [OF parts(6), of length] by (simp add: style_layer_names_def)
  have "total_variation_loss 1 1 ?x = Some 0"
    using total_variation_loss_value [of ?x 1 1 1 3] by (simp add: grid4_def grid3_def)
  with parts(7) have tv: "tv = 0" by simp
  have cl: "cl = 0"
    using parts(1-5)
    by (auto simp: tf_concat0_def select_batch_def content_loss_def tf_subtract_def elementwise_def
        tf_square_def tf_reduce_sum_def)
  have "L = content_weight * 0 + style_weight * (sum_list vs / 5) + total_variation_weight * 0"
    using parts(8) cl tv by (simp add: style_layer_names_def)
  with first L len show ?thesis by blast
qed


section \<open>Symmetry of the content loss and of the style loss\<close>

text \<open>
  C10. For two tensors of one shape the content loss returns the same value for both
  orders of its arguments, and so does the style loss for two feature tensors of one shape.
\<close>

theorem content_and_style_loss_symmetric:
  "(shape a = shape b \<longrightarrow>
      (\<exists>v. content_loss a b = Some v \<and> content_loss b a = Some v))
   \<and> (shape s = [h, w, C] \<and> shape c = [h, w, C] \<and> 0 < C \<longrightarrow>
      (\<exists>v. style_loss img_height img_width s c = Some v
         \<and> style_loss img_height img_width c s = Some v))"
proof (intro conjI impI)
  assume "shape a = shape b"
  then obtain v where "content_loss a b = Some v"
    using content_loss_value by blast
  then show "\<exists>v. content_loss a b = Some v \<and> content_loss b a = Some v"
    using content_loss_commute [of a b] by simp
next
  assume "shape s = [h, w, C] \<and> shape c = [h, w, C] \<and> 0 < C"
  then obtain v where "style_loss img_height img_width s c = Some v"
    using style_loss_value by blast
  then show "\<exists>v. style_loss img_height img_width s c = Some v
               \<and> style_loss img_height img_width c s = Some v"
    using style_loss_commute [of img_height img_width s c] by simp
qed

theorem content_and_style_loss_symmetric_witness:
  "(\<exists>v. content_loss \<lparr>shape = [1, 1, 2], elems = [1, 2]\<rparr> \<lparr>shape = [1, 1, 2], elems = [1, 4]\<rparr> = Some v
        \<and> content_loss \<lparr>shape = [1, 1, 2], elems = [1, 4]\<rparr> \<lparr>shape = [1, 1, 2], elems = [1, 2]\<rparr> = Some v)
   \<and> (\<exists>v. style_loss 400 600 \<lparr>shape = [1, 1, 2], elems = [1, 2]\<rparr> \<lparr>shape = [1, 1, 2], elems = [1, 4]\<rparr> = Some v
        \<and> style_loss 400 600 \<lparr>shape = [1, 1, 2], elems = [1, 4]\<rparr> \<lparr>shape = [1, 1, 2], elems = [1, 2]\<rparr> = Some v)"
  using content_and_style_loss_symmetric
          [of "\<lparr>shape = [1, 1, 2], elems = [1, 2]\<rparr>" "\<lparr>shape = [1, 1, 2], elems = [1, 4]\<rparr>"
              "\<lparr>shape = [1, 1, 2], elems = [1, 2]\<rparr>" 1 1 2
              "\<lparr>shape = [1, 1, 2], elems = [1, 4]\<rparr>" 400 600]
  by simp


section \<open>Pictures written out are in the byte range\<close>

text \<open>
  C6. For every array with as many elements as a picture of \<open>img_height\<close> by
  \<open>img_width\<close> pixels of three channels has, \<open>deprocess_image\<close> returns a picture of that
  shape, and every channel value of it lies between 0 and 255: it is the integer part of a
  value that the clipping has brought between 0 and 255, so that storing it in eight bits
  changes nothing.
\<close>

theorem deprocess_image_byte_range:
  assumes "length (elems img) = img_height * img_width * 3"
  shows "\<exists>out. deprocess_image img_height img_width img = Some out
           \<and> img_shape out = [img_height, img_width, 3]
           \<and> length (pixels out) = img_height * img_width * 3
           \<and> (\<forall>p \<in> set (pixels out).
                 0 \<le> uint p \<and> uint p \<le> 255
                 \<and> (\<exists>v::real. 0 \<le> v \<and> v \<le> 255 \<and> p = word_of_int \<lfloor>v\<rfloor> \<and> uint p = \<lfloor>v\<rfloor>))"
proof -
  from deprocess_image_value [OF assms] obtain t4 where
    out: "deprocess_image img_height img_width img = Some (astype_uint8 (np_clip t4 0 255))"
    and t4: "shape t4 = [img_height, img_width, 3]"
      "length (elems t4) = img_height * (img_width * 3)"
    by blast
  let ?out = "astype_uint8 (np_clip t4 0 255)"
  have "0 \<le> uint p \<and> uint p \<le> 255
          \<and> (\<exists>v::real. 0 \<le> v \<and> v \<le> 255 \<and> p = word_of_int \<lfloor>v\<rfloor> \<and> uint p = \<lfloor>v\<rfloor>)"
    if "p \<in> set (pixels ?out)" for p
  proof -
    from that obtain u :: real where p: "p = word_of_int \<lfloor>min (max u 0) 255\<rfloor>"
      by (auto simp: astype_uint8_def np_clip_def)
    let ?v = "min (max u 0) (255::real)"
    have range: "0 \<le> ?v" "?v \<le> 255" by simp_all
    have u8: "uint p = \<lfloor>?v\<rfloor>" "0 \<le> \<lfloor>?v\<rfloor>" "\<lfloor>?v\<rfloor> \<le> 255"
      unfolding p by (rule uint8_of_clipped [OF range])+
    have "\<exists>v::real. 0 \<le> v \<and> v \<le> 255 \<and> p = word_of_int \<lfloor>v\<rfloor> \<and> uint p = \<lfloor>v\<rfloor>"
      using range p u8(1) by (intro exI [of _ ?v] conjI)
    with u8 show ?thesis by simp
  qed
  moreover have "img_shape ?out = [img_height, img_width, 3]"
    using t4(1) by (simp add: astype_uint8_def np_clip_def)
  moreover have "length (pixels ?out) = img_height * img_width * 3"
    using t4(2) by (simp add: astype_uint8_def np_clip_def)
  ultimately show ?thesis
    using out by blast
qed

theorem deprocess_image_byte_range_witness:
  "\<exists>out. deprocess_image 1 1 \<lparr>shape = [1, 1, 1, 3], elems = [- 200, 0, 300]\<rparr> = Some out
         \<and> (\<forall>p \<in> set (pixels out). 0 \<le> uint p \<and> uint p \<le> 255)"
  using deprocess_image_byte_range [of "\<lparr>shape = [1, 1, 1, 3], elems = [- 200, 0, 300]\<rparr>" 1 1]
  by auto


section \<open>The learning rate decays at every step\<close>

text \<open>
  Without \<^verbatim>\<open>staircase\<close> the exponent of the schedule is the real quotient of the step by
  100, so the rate is already below 100 in the middle of the first window of 100 steps,
  where a rate that is constant on windows is still 100.
\<close>

theorem learning_rate_windows_counterexample:
  "learning_rate 50 < 100 \<and> learning_rate_spec 50 = 100"
proof -
  have "(96 / 100 :: real) powr (1 / 2) < (96 / 100) powr 0"
    by (rule powr_less_mono') simp_all
  then have "learning_rate 50 < 100"
    by (simp add: learning_rate_value)
  moreover have "learning_rate_spec 50 = 100"
    by (simp add: learning_rate_spec_def)
  ultimately show ?thesis ..
qed

text \<open>
  C3, as the code has it. The rate at optimizer step \<open>n\<close> is \<open>100 * 0.96\<close> to the power
  \<open>n / 100\<close>, the exponent being a real number: it starts from 100, is multiplied by 0.96
  over every 100 steps, equals \<open>100 * 0.96 ^ k\<close> at step \<open>100 * k\<close>, and is strictly smaller
  at every step than at the step before. The rate that is constant on windows of 100 steps
  is the schedule with \<^verbatim>\<open>staircase\<close> set.
\<close>

theorem learning_rate_continuous_decay:
  "learning_rate n = 100 * (96 / 100) powr (real n / 100)
   \<and> learning_rate 0 = 100
   \<and> learning_rate (n + 100) = (96 / 100) * learning_rate n
   \<and> learning_rate (100 * k) = 100 * (96 / 100) ^ k
   \<and> learning_rate (Suc n) < learning_rate n
   \<and> exponential_decay 100 100 (96 / 100) True n = learning_rate_spec n"
proof (intro conjI)
  show "learning_rate n = 100 * (96 / 100) powr (real n / 100)"
    by (rule learning_rate_value)
  show "learning_rate 0 = 100"
    by (simp add: learning_rate_value)
  have "real (n + 100) / 100 = real n / 100 + 1"
    by simp
  then have "(96 / 100 :: real) powr (real (n + 100) / 100)
               = (96 / 100) powr (real n / 100) * (96 / 100) powr 1"
    by (simp only: powr_add)
  then show "learning_rate (n + 100) = (96 / 100) * learning_rate n"
    by (simp add: learning_rate_value)
  have "(96 / 100 :: real) powr (real (100 * k) / 100) = (96 / 100) powr (real k)"
    by simp
  also have "\<dots> = (96 / 100) ^ k"
    by (rule powr_realpow) simp
  finally show "learning_rate (100 * k) = 100 * (96 / 100) ^ k"
    by (simp add: learning_rate_value)
  have "(96 / 100 :: real) powr (real (Suc n) / 100) < (96 / 100) powr (real n / 100)"
    by (rule powr_less_mono') simp_all
  then show "learning_rate (Suc n) < learning_rate n"
    by (simp add: learning_rate_value)
  have "\<lfloor>real n / real (100::nat)\<rfloor> = int (n div 100)"
    by (rule floor_divide_of_nat_eq)
  then have "(96 / 100 :: real) powr of_int \<lfloor>real n / 100\<rfloor> = (96 / 100) powr real (n div 100)"
    by simp
  also have "\<dots> = (96 / 100) ^ (n div 100)"
    by (rule powr_realpow) simp
  finally show "exponential_decay 100 100 (96 / 100) True n = learning_rate_spec n"
    by (simp add: exponential_decay_def learning_rate_spec_def)
qed


section \<open>The loop runs its whole budget\<close>

text \<open>
  C4. Whatever the network and the gradients are (so whatever the losses are), as long
  as they have the shapes of the notebook, the loop returns after exactly 4000 descent
  steps. It writes a file exactly at the iterations \<open>i\<close> with \<open>i mod 100 = 0\<close>, in order:
  the forty files named by \<open>fname\<close> of 100, 200, ..., 4000, no two names the same; and the
  file of iteration \<open>i\<close> holds the picture of the combination image as it is after
  iteration \<open>i\<close>.
\<close>

theorem optimization_loop_runs_whole_budget:
  assumes base: "shape base = [1, img_height, img_width, 3]" "well_shaped base"
    and style: "shape style = [1, img_height, img_width, 3]"
    and fe: "extractor_ok fe img_height img_width"
    and g: "gradient_ok tape_gradient"
  shows "\<exists>st. style_transfer fe tape_gradient img_height img_width base style = Some st
           \<and> optimizer_step st = 4000
           \<and> map fst (saved st) = map fname (filter (\<lambda>i. i mod 100 = 0) [1..<4001])
           \<and> map fst (saved st) = map (\<lambda>k. fname (100 * k)) [1..<41]
           \<and> distinct (map fst (saved st))
           \<and> map fst (printed st) = filter (\<lambda>i. i mod 100 = 0) [1..<4001]
           \<and> (\<forall>i. 1 \<le> i \<and> i \<le> 4000 \<and> i mod 100 = 0 \<longrightarrow>
                 (\<exists>st_i img.
                    for_loop fe tape_gradient img_height img_width [1..<i + 1]
                      (initial_state base style) = Some st_i
                  \<and> deprocess_image img_height img_width (combination_image st_i) = Some img
                  \<and> (fname i, img) \<in> set (saved st)))"
proof -
  from style_transfer_run [OF assms] obtain st where
    run: "style_transfer fe tape_gradient img_height img_width base style = Some st"
    and budget: "optimizer_step st = 4000"
    and names: "map fst (saved st) = map fname (filter (\<lambda>i. i mod 100 = 0) [1..<4001])"
    and lines: "map fst (printed st) = filter (\<lambda>i. i mod 100 = 0) [1..<4001]"
    and snap: "\<forall>i. 1 \<le> i \<and> i \<le> 4000 \<and> i mod 100 = 0 \<longrightarrow>
                 (\<exists>st_i img.
                    for_loop fe tape_gradient img_height img_width [1..<i + 1]
                      (initial_state base style) = Some st_i
                  \<and> deprocess_image img_height img_width (combination_image st_i) = Some img
                  \<and> (fname i, img) \<in> set (saved st))"
    by blast
  have names': "map fst (saved st) = map (\<lambda>k. fname (100 * k)) [1..<41]"
    unfolding names checkpoints by (simp add: comp_def)
  have "inj_on fname (set (filter (\<lambda>i. i mod 100 = 0) [1..<4001]))"
    by (rule inj_onI) (rule fname_inj)
  then have dist: "distinct (map fst (saved st))"
    unfolding names by (simp add: distinct_map)
  from run budget names names' dist lines snap show ?thesis
    by (intro exI [of _ st] conjI)
qed

theorem optimization_loop_runs_whole_budget_witness:
  "\<exists>st. style_transfer (\<lambda>x name. Some x) (\<lambda>c b s. c) 1 1
          \<lparr>shape = [1, 1, 1, 3], elems = [1, 2, 3]\<rparr> \<lparr>shape = [1, 1, 1, 3], elems = [3, 2, 1]\<rparr> = Some st
        \<and> optimizer_step st = 4000
        \<and> map fst (saved st) = map (\<lambda>k. fname (100 * k)) [1..<41]"
proof -
  have "\<exists>st. style_transfer (\<lambda>x name. Some x) (\<lambda>c b s. c) 1 1
          \<lparr>shape = [1, 1, 1, 3], elems = [1, 2, 3]\<rparr> \<lparr>shape = [1, 1, 1, 3], elems = [3, 2, 1]\<rparr> = Some st
        \<and> optimizer_step st = 4000
        \<and> map fst (saved st) = map fname (filter (\<lambda>i. i mod 100 = 0) [1..<4001])
        \<and> map fst (saved st) = map (\<lambda>k. fname (100 * k)) [1..<41]
        \<and> distinct (map fst (saved st))
        \<and> map fst (printed st) = filter (\<lambda>i. i mod 100 = 0) [1..<4001]
        \<and> (\<forall>i. 1 \<le> i \<and> i \<le> 4000 \<and> i mod 100 = 0 \<longrightarrow>
              (\<exists>st_i img.
                 for_loop (\<lambda>x name. Some x) (\<lambda>c b s. c) 1 1 [1..<i + 1]
                   (initial_state \<lparr>shape = [1, 1, 1, 3], elems = [1, 2, 3]\<rparr>
                      \<lparr>shape = [1, 1, 1, 3], elems = [3, 2, 1]\<rparr>) = Some st_i
               \<and> deprocess_image 1 1 (combination_image st_i) = Some img
               \<and> (fname i, img) \<in> set (saved st)))"
    by (rule optimization_loop_runs_whole_budget)
      (simp_all add: well_shaped_def extractor_ok_def layers_ok_def gradient_ok_def)
  then show ?thesis by blast
qed


section \<open>The content image and the style image stay as they are\<close>

text \<open>
  C8. An iteration of the loop changes the combination image, the step counter of the
  optimizer and the output, and leaves the content image and the style image alone: after
  any number of iterations, and at the end of the run, both equal the arrays the run
  started with (the combination image starts as the content image). The run does reach
  the end of every iteration.
\<close>

theorem content_and_style_images_unchanged:
  "(loop_body fe g H W i st = Some st' \<longrightarrow>
      base_image st' = base_image st \<and> style_reference_image st' = style_reference_image st)
   \<and> (for_loop fe g H W [1..<n + 1] (initial_state base style) = Some st_n \<longrightarrow>
        combination_image (initial_state base style) = base
        \<and> base_image st_n = base \<and> style_reference_image st_n = style)
   \<and> (style_transfer fe g H W base style = Some st_end \<longrightarrow>
        base_image st_end = base \<and> style_reference_image st_end = style)
   \<and> (shape base = [1, H, W, 3] \<and> well_shaped base \<and> shape style = [1, H, W, 3]
        \<and> extractor_ok fe H W \<and> gradient_ok g \<longrightarrow>
        (\<exists>st_n. for_loop fe g H W [1..<n + 1] (initial_state base style) = Some st_n))"
proof (intro conjI impI)
  assume "loop_body fe g H W i st = Some st'"
  then show "base_image st' = base_image st" "style_reference_image st' = style_reference_image st"
    using loop_body_frame by blast+
next
  assume "for_loop fe g H W [1..<n + 1] (initial_state base style) = Some st_n"
  from for_loop_frame [OF this]
  show "base_image st_n = base" "style_reference_image st_n = style"
    by (simp_all add: initial_state_def)
  show "combination_image (initial_state base style) = base"
    by (simp add: initial_state_def)
next
  assume "style_transfer fe g H W base style = Some st_end"
  then have "for_loop fe g H W [1..<iterations + 1] (initial_state base style) = Some st_end"
    by (simp add: style_transfer_def)
  from for_loop_frame [OF this]
  show "base_image st_end = base" "style_reference_image st_end = style"
    by (simp_all add: initial_state_def)
next
  assume a: "shape base = [1, H, W, 3] \<and> well_shaped base \<and> shape style = [1, H, W, 3]
        \<and> extractor_ok fe H W \<and> gradient_ok g"
  then have "run_inv H W (initial_state base style)"
    by (intro initial_state_inv) simp_all
  with a for_loop_total [where xs = "[1..<n + 1]" and st = "initial_state base style" and fe = fe
      and g = g and H = H and W = W]
  show "\<exists>st_n. for_loop fe g H W [1..<n + 1] (initial_state base style) = Some st_n"
    by blast
qed

theorem content_and_style_images_unchanged_witness:
  "\<exists>st. style_transfer (\<lambda>x name. Some x) (\<lambda>c b s. c) 1 1
          \<lparr>shape = [1, 1, 1, 3], elems = [1, 2, 3]\<rparr> \<lparr>shape = [1, 1, 1, 3], elems = [3, 2, 1]\<rparr> = Some st
        \<and> base_image st = \<lparr>shape = [1, 1, 1, 3], elems = [1, 2, 3]\<rparr>
        \<and> style_reference_image st = \<lparr>shape = [1, 1, 1, 3], elems = [3, 2, 1]\<rparr>"
proof -
  let ?fe = "\<lambda>(x::tensor) (name::string). Some x" and ?g = "\<lambda>(c::tensor) (b::tensor) (s::tensor). c"
  let ?b = "\<lparr>shape = [1, 1, 1, 3], elems = [1, 2, 3]\<rparr>"
  let ?s = "\<lparr>shape = [1, 1, 1, 3], elems = [3, 2, 1]\<rparr>"
  note inst = content_and_style_images_unchanged
    [where fe = ?fe and g = ?g and H = 1 and W = 1 and base = ?b and style = ?s and n = 4000]
  have pre: "shape ?b = [1, 1, 1, 3] \<and> well_shaped ?b \<and> shape ?s = [1, 1, 1, 3]
        \<and> extractor_ok ?fe 1 1 \<and> gradient_ok ?g"
    by (simp add: well_shaped_def extractor_ok_def layers_ok_def gradient_ok_def)
  from inst pre obtain st where st: "for_loop ?fe ?g 1 1 [1..<4000 + 1] (initial_state ?b ?s) = Some st"
    by blast
  then have run: "style_transfer ?fe ?g 1 1 ?b ?s = Some st"
    by (simp add: style_transfer_def iterations_def)
  from inst [where st_end = st] run
  have "base_image st = ?b \<and> style_reference_image st = ?s"
    by blast
  with run show ?thesis by blast
qed


section \<open>When the content loss vanishes\<close>





section \<open>When the total variation loss vanishes\<close>

text \<open>
  The loss compares every position outside the last row and the last column with the
  position below it and the position to its right. The pixel in the last row and last
  column is never read: a picture of 400 rows and 2 columns that is black except for that
  one pixel has two unequal pixels and total variation loss zero. And where a compared pair
  does differ, the squares of a small difference underflow: the picture of 2 rows and 2
  columns with the values \<open>2\<^sup>-\<^sup>1\<^sup>0\<^sup>0, 0, 0, 0\<close> has total variation loss zero as well.
\<close>

theorem total_variation_loss32_counterexample:
  "total_variation_loss32 400 2
     \<lparr>shape = [1, 400, 2, 3], elems = replicate 2397 (Finite 0) @ [Finite 1, Finite 1, Finite 1]\<rparr>
     = Some (Finite 0)
   \<and> at4 \<lparr>shape = [1, 400, 2, 3], elems = replicate 2397 (Finite 0) @ [Finite 1, Finite 1, Finite 1]\<rparr> 0 0 0 0
       \<noteq> at4 \<lparr>shape = [1, 400, 2, 3], elems = replicate 2397 (Finite 0) @ [Finite 1, Finite 1, Finite 1]\<rparr> 0 399 1 0
   \<and> total_variation_loss32 2 2
       \<lparr>shape = [1, 2, 2, 1], elems = [Finite (two_pow (- 100)), Finite 0, Finite 0, Finite 0]\<rparr>
       = Some (Finite 0)
   \<and> at4 \<lparr>shape = [1, 2, 2, 1], elems = [Finite (two_pow (- 100)), Finite 0, Finite 0, Finite 0]\<rparr> 0 0 0 0
       \<noteq> at4 \<lparr>shape = [1, 2, 2, 1], elems = [Finite (two_pow (- 100)), Finite 0, Finite 0, Finite 0]\<rparr> 0 1 0 0"
proof -
  define zs where "zs = replicate 2397 (Finite 0)"
  have len: "length zs = 2397"
    by (simp add: zs_def)
  have z: "zs ! i = Finite 0" if "i < 2397" for i
    using that by (simp add: zs_def)
  have zset: "set zs \<subseteq> {Finite 0}"
    by (simp add: zs_def)
  let ?x = "\<lparr>shape = [1, 400, 2, 3], elems = zs @ [Finite 1, Finite 1, Finite 1]\<rparr>"
  have sh: "shape ?x = [1, 400, 2, 3]" by simp
  have ws: "well_shaped ?x" by (simp add: well_shaped_def len)
  have fin: "\<forall>v \<in> set (elems ?x). is_finite v" using zset by auto
  have low: "at4 ?x 0 h w c = Finite 0" if "h * 6 + w * 3 + c < 2397" for h w c
  proof -
    have "at4 ?x 0 h w c = (zs @ [Finite 1, Finite 1, Finite 1]) ! (h * 6 + w * 3 + c)"
      by (simp add: at4_def algebra_simps)
    also have "\<dots> = Finite 0"
      using that by (simp add: nth_append len z)
    finally show ?thesis .
  qed
  have "\<bar>the_real (at4 ?x n h w c) - the_real (at4 ?x n (Suc h) w c)\<bar> \<le> two_pow (- 80)
      \<and> \<bar>the_real (at4 ?x n h w c) - the_real (at4 ?x n h (Suc w) c)\<bar> \<le> two_pow (- 80)"
    if "n < 1" "h < 400 - 1" "w < 2 - 1" "c < 3" for n h w c
  proof -
    from that have n: "n = 0" and w: "w = 0" by simp_all
    have "at4 ?x 0 h 0 c = Finite 0"
      by (rule low) (use that in simp)
    moreover have "at4 ?x 0 (Suc h) 0 c = Finite 0"
      by (rule low) (use that in simp)
    moreover have "at4 ?x 0 h (Suc 0) c = Finite 0"
      by (rule low) (use that in simp)
    ultimately show ?thesis
      unfolding n w by simp
  qed
  then have "fsum (grid4 1 (400 - 1) (2 - 1) 3 (tv_term32 ?x)) = Finite 0"
    by (intro tv_sum32(2) [OF sh ws fin]) blast
  moreover have "total_variation_loss32 400 2 ?x
      = Some (fsum (grid4 1 (400 - 1) (2 - 1) 3 (tv_term32 ?x)))"
    using sh by (rule total_variation_loss32_value)
  ultimately have tv: "total_variation_loss32 400 2 ?x = Some (Finite 0)"
    by (simp only:)
  have "at4 ?x 0 399 1 0 = (zs @ [Finite 1, Finite 1, Finite 1]) ! (2397 + 0)"
    by (simp add: at4_def)
  also have "\<dots> = Finite 1"
    by (simp add: nth_append len)
  finally have neq: "at4 ?x 0 0 0 0 \<noteq> at4 ?x 0 399 1 0"
    using low [of 0 0 0] by simp
  let ?y = "\<lparr>shape = [1, 2, 2, 1], elems = [Finite (two_pow (- 100)), Finite 0, Finite 0, Finite 0]\<rparr>"
  have shy: "shape ?y = [1, 2, 2, 1]" by simp
  have wsy: "well_shaped ?y" by (simp add: well_shaped_def)
  have finy: "\<forall>v \<in> set (elems ?y). is_finite v" by simp
  have "\<bar>the_real (at4 ?y n h w c) - the_real (at4 ?y n (Suc h) w c)\<bar> \<le> two_pow (- 80)
      \<and> \<bar>the_real (at4 ?y n h w c) - the_real (at4 ?y n h (Suc w) c)\<bar> \<le> two_pow (- 80)"
    if "n < 1" "h < 2 - 1" "w < 2 - 1" "c < 1" for n h w c
  proof -
    from that have "n = 0" "h = 0" "w = 0" "c = 0" by simp_all
    then show ?thesis by (simp add: at4_def)
  qed
  then have "fsum (grid4 1 (2 - 1) (2 - 1) 1 (tv_term32 ?y)) = Finite 0"
    by (intro tv_sum32(2) [OF shy wsy finy]) blast
  moreover have "total_variation_loss32 2 2 ?y
      = Some (fsum (grid4 1 (2 - 1) (2 - 1) 1 (tv_term32 ?y)))"
    using shy by (rule total_variation_loss32_value)
  ultimately have tvy: "total_variation_loss32 2 2 ?y = Some (Finite 0)"
    by (simp only:)
  have neqy: "at4 ?y 0 0 0 0 \<noteq> at4 ?y 0 1 0 0"
    by (simp add: at4_def)
  show ?thesis
    using tv neq tvy neqy unfolding zs_def by (intro conjI)
qed

text \<open>
  C2. For a batch of pictures of the size the notebook works on, with finite values, the
  total variation loss returns a value that is never negative or NaN. It is zero for every
  picture of one flat colour, and more generally whenever no position outside the last row
  and last column differs by more than \<open>2\<^sup>-\<^sup>8\<^sup>0\<close>, in any channel, from the position below
  it or from the position to its right. It is strictly positive whenever some position
  outside the last row and last column differs by at least \<open>2\<^sup>-\<^sup>4\<^sup>0\<close>, in some channel, from
  the position below it or from the position to its right. Variation that only involves
  the pixel in the last row and last column, or only pairs along the last row or the last
  column, or only different channels of one pixel, is not seen.
\<close>

theorem total_variation_loss32_zero_and_positive:
  assumes "shape x = [N, img_height, img_width, C]"
    and "well_shaped x"
    and "\<forall>v \<in> set (elems x). is_finite v"
  shows "\<exists>v. total_variation_loss32 img_height img_width x = Some v
           \<and> f32_le (Finite 0) v
           \<and> ((\<forall>n<N. \<forall>h<img_height. \<forall>w<img_width. \<forall>c<C. at4 x n h w c = at4 x n 0 0 c)
                \<longrightarrow> v = Finite 0)
           \<and> ((\<forall>n<N. \<forall>h<img_height - 1. \<forall>w<img_width - 1. \<forall>c<C.
                   \<bar>the_real (at4 x n h w c) - the_real (at4 x n (Suc h) w c)\<bar> \<le> two_pow (- 80)
                 \<and> \<bar>the_real (at4 x n h w c) - the_real (at4 x n h (Suc w) c)\<bar> \<le> two_pow (- 80))
                \<longrightarrow> v = Finite 0)
           \<and> ((\<exists>n<N. \<exists>h<img_height - 1. \<exists>w<img_width - 1. \<exists>c<C.
                   two_pow (- 40) \<le> \<bar>the_real (at4 x n h w c) - the_real (at4 x n (Suc h) w c)\<bar>
                 \<or> two_pow (- 40) \<le> \<bar>the_real (at4 x n h w c) - the_real (at4 x n h (Suc w) c)\<bar>)
                \<longrightarrow> f32_less (Finite 0) v)"
proof -
  let ?v = "fsum (grid4 N (img_height - 1) (img_width - 1) C (tv_term32 x))"
  let ?tiny = "\<forall>n<N. \<forall>h<img_height - 1. \<forall>w<img_width - 1. \<forall>c<C.
                   \<bar>the_real (at4 x n h w c) - the_real (at4 x n (Suc h) w c)\<bar> \<le> two_pow (- 80)
                 \<and> \<bar>the_real (at4 x n h w c) - the_real (at4 x n h (Suc w) c)\<bar> \<le> two_pow (- 80)"
  note facts = tv_sum32 [OF assms]
  have val: "total_variation_loss32 img_height img_width x = Some ?v"
    using assms(1) by (rule total_variation_loss32_value)
  have nn: "nng ?v" by (rule facts(1))
  have tiny: "?v = Finite 0" if "?tiny"
    using that by (rule facts(2))
  have flat: "?v = Finite 0"
    if all: "\<forall>n<N. \<forall>h<img_height. \<forall>w<img_width. \<forall>c<C. at4 x n h w c = at4 x n 0 0 c"
  proof (rule tiny, intro allI impI)
    fix n h w c
    assume b: "n < N" "h < img_height - 1" "w < img_width - 1" "c < C"
    have eq: "at4 x n h' w' c = at4 x n 0 0 c" if "h' < img_height" "w' < img_width" for h' w'
      using all b(1,4) that by blast
    have "at4 x n h w c = at4 x n 0 0 c"
      by (rule eq) (use b in simp_all)
    moreover have "at4 x n (Suc h) w c = at4 x n 0 0 c"
      by (rule eq) (use b in simp_all)
    moreover have "at4 x n h (Suc w) c = at4 x n 0 0 c"
      by (rule eq) (use b in simp_all)
    ultimately show
      "\<bar>the_real (at4 x n h w c) - the_real (at4 x n (Suc h) w c)\<bar> \<le> two_pow (- 80)
       \<and> \<bar>the_real (at4 x n h w c) - the_real (at4 x n h (Suc w) c)\<bar> \<le> two_pow (- 80)"
      by simp
  qed
  have big: "f32_less (Finite 0) ?v"
    if "\<exists>n<N. \<exists>h<img_height - 1. \<exists>w<img_width - 1. \<exists>c<C.
          two_pow (- 40) \<le> \<bar>the_real (at4 x n h w c) - the_real (at4 x n (Suc h) w c)\<bar>
        \<or> two_pow (- 40) \<le> \<bar>the_real (at4 x n h w c) - the_real (at4 x n h (Suc w) c)\<bar>"
    using nn facts(3) [OF that] by (rule nng_less)
  show ?thesis
    using val nng_le [OF nn] flat tiny big by blast
qed

theorem total_variation_loss32_zero_and_positive_witness:
  "total_variation_loss32 2 2 \<lparr>shape = [1, 2, 2, 3], elems = replicate 12 (Finite 5)\<rparr>
     = Some (Finite 0)
   \<and> (\<exists>v. total_variation_loss32 2 2
             \<lparr>shape = [1, 2, 2, 3],
              elems = [Finite 0, Finite 0, Finite 0, Finite 0, Finite 0, Finite 0,
                       Finite 1, Finite 1, Finite 1, Finite 0, Finite 0, Finite 0]\<rparr> = Some v
          \<and> f32_less (Finite 0) v)"
proof -
  let ?f = "\<lparr>shape = [1, 2, 2, 3], elems = replicate 12 (Finite 5)\<rparr>"
  let ?x = "\<lparr>shape = [1, 2, 2, 3],
             elems = [Finite 0, Finite 0, Finite 0, Finite 0, Finite 0, Finite 0,
                      Finite 1, Finite 1, Finite 1, Finite 0, Finite 0, Finite 0]\<rparr>"
  have shf: "shape ?f = [1, 2, 2, 3]" and shx: "shape ?x = [1, 2, 2, 3]" by simp_all
  have wsf: "well_shaped ?f" and wsx: "well_shaped ?x" by (simp_all add: well_shaped_def)
  have finf: "\<forall>v \<in> set (elems ?f). is_finite v" and finx: "\<forall>v \<in> set (elems ?x). is_finite v"
    by simp_all
  have "at4 ?f n h w c = Finite 5" if "n < 1" "h < 2" "w < 2" "c < 3" for n h w c
    using at4_in_set [OF shf wsf that] by simp
  then have flat: "\<forall>n<1. \<forall>h<2. \<forall>w<2. \<forall>c<3. at4 ?f n h w c = at4 ?f n 0 0 c"
    by simp
  have zero: "total_variation_loss32 2 2 ?f = Some (Finite 0)"
    using total_variation_loss32_zero_and_positive [OF shf wsf finf]
  proof (elim exE conjE)
    fix v assume "total_variation_loss32 2 2 ?f = Some v"
      and "(\<forall>n<1. \<forall>h<2. \<forall>w<2. \<forall>c<3. at4 ?f n h w c = at4 ?f n 0 0 c) \<longrightarrow> v = Finite 0"
    with flat show ?thesis by (simp only: simp_thms)
  qed
  have "two_pow (- 40) \<le> 1" by (rule two_pow_le_1) simp
  then have "two_pow (- 40) \<le> \<bar>the_real (at4 ?x 0 0 0 0) - the_real (at4 ?x 0 (Suc 0) 0 0)\<bar>"
    by (simp add: at4_def)
  then have differ: "\<exists>n<1. \<exists>h<2 - 1. \<exists>w<2 - 1. \<exists>c<3.
        two_pow (- 40) \<le> \<bar>the_real (at4 ?x n h w c) - the_real (at4 ?x n (Suc h) w c)\<bar>
      \<or> two_pow (- 40) \<le> \<bar>the_real (at4 ?x n h w c) - the_real (at4 ?x n h (Suc w) c)\<bar>"
    by (intro exI [of _ 0] conjI disjI1) simp_all
  have "\<exists>v. total_variation_loss32 2 2 ?x = Some v \<and> f32_less (Finite 0) v"
    using total_variation_loss32_zero_and_positive [OF shx wsx finx]
  proof (elim exE conjE)
    fix v
    assume tv: "total_variation_loss32 2 2 ?x = Some v"
      and pos: "(\<exists>n<1. \<exists>h<2 - 1. \<exists>w<2 - 1. \<exists>c<3.
        two_pow (- 40) \<le> \<bar>the_real (at4 ?x n h w c) - the_real (at4 ?x n (Suc h) w c)\<bar>
      \<or> two_pow (- 40) \<le> \<bar>the_real (at4 ?x n h w c) - the_real (at4 ?x n h (Suc w) c)\<bar>)
        \<longrightarrow> f32_less (Finite 0) v"
    from pos differ have "f32_less (Finite 0) v" by (rule mp)
    with tv show ?thesis by (intro exI conjI)
  qed
  with zero show ?thesis by (rule conjI)
qed


section \<open>The sign of the losses\<close>





end
